theory Spec2Isabelle
  imports Main "HOL-Library.Word"
begin

section \<open>Errors, events and log entries\<close>

text \<open>
  The Go error values the engine produces or passes on. \<open>ErrConnectionClosed\<close> and
  \<open>ErrHelloNotReceived\<close> are the two package-level errors; \<open>io_EOF\<close> is \<open>io.EOF\<close>;
  \<open>ErrTimeout\<close> is the error of a read whose deadline expired; \<open>ErrOther\<close> is any other
  error value (a decode error, a network error); \<open>ErrWrap\<close> is \<open>fmt.Errorf("...: %w", err)\<close>.
\<close>

datatype error =
    ErrConnectionClosed
  | ErrHelloNotReceived
  | io_EOF
  | ErrTimeout
  | ErrOther string
  | ErrWrap string error

text \<open>
  Modelled from the spec: the declaration of \<open>Event\<close> and of its kind \<open>EventType\<close> lies
  outside the files embedded here. The fields are the ones the source reads (\<open>Keyword\<close>, \<open>Type\<close>, \<open>Client\<close>,
  \<open>ProcessID\<close>, \<open>InvokeID\<close>, \<open>Segments\<close>, \<open>Incomplete\<close>, \<open>Payload\<close>); the kind has the two
  values of the data model, Notification and Response. \<open>InvokeID\<close> is the key type of the
  request table, \<open>uint32\<close>.
\<close>

datatype EventType = EventTypeNotification | EventTypeResponse

record Event =
  Keyword :: string
  Type :: EventType
  Client :: string
  ProcessID :: nat
  InvokeID :: "32 word"
  Segments :: nat
  Incomplete :: bool
  Payload :: "(string \<times> string) list + string"

datatype LogLevel = LogLevelDebug | LogLevelInfo | LogLevelError | LogLevelNone

datatype log_value =
    LError error
  | LString string
  | LType EventType
  | LNat nat
  | LWord "32 word"
  | LBool bool

record LogEntry =
  Level :: LogLevel
  Message :: string
  Fields :: "(string \<times> log_value) list"

definition newLogEntry :: "LogLevel \<Rightarrow> string \<Rightarrow> (string \<times> log_value) list \<Rightarrow> LogEntry" where
  "newLogEntry lvl msg kvs = \<lparr>Level = lvl, Message = msg, Fields = kvs\<rparr>"

text \<open>
  What the engine uses and the embedded files do not define: the two frame terminators
  \<open>ETX\<close> and \<open>ETB\<close>, the event decoder \<open>decodeEvent\<close> and the test \<open>Event.IsStart\<close>.
  They are parameters of the model.
\<close>

record externals =
  ETX :: char
  ETB :: char
  decodeEvent :: "string \<Rightarrow> error + Event"
  IsStart :: "Event \<Rightarrow> bool"

section \<open>Channels\<close>

text \<open>
  A Go channel with a buffer: a send on a closed channel panics, a send on a full one
  blocks; a receive takes the oldest buffered value, blocks on an open empty channel and
  reports closure on a closed empty one; closing twice panics.
\<close>

record 'a chan =
  buf :: "'a list"
  cap :: nat
  closed :: bool

definition make_chan :: "nat \<Rightarrow> 'a chan" where
  "make_chan n = \<lparr>buf = [], cap = n, closed = False\<rparr>"

datatype 'a send_result = Sent "'a chan" | SendBlocks | SendPanics

definition chan_send :: "'a chan \<Rightarrow> 'a \<Rightarrow> 'a send_result" where
  "chan_send ch v =
     (if closed ch then SendPanics
      else if length (buf ch) < cap ch then Sent (ch\<lparr>buf := buf ch @ [v]\<rparr>)
      else SendBlocks)"

datatype 'a recv_result = Received 'a "'a chan" | RecvBlocks | RecvClosed

definition chan_recv :: "'a chan \<Rightarrow> 'a recv_result" where
  "chan_recv ch =
     (case buf ch of
        v # vs \<Rightarrow> Received v (ch\<lparr>buf := vs\<rparr>)
      | [] \<Rightarrow> if closed ch then RecvClosed else RecvBlocks)"

definition chan_close :: "'a chan \<Rightarrow> 'a chan option" where
  "chan_close ch = (if closed ch then None else Some (ch\<lparr>closed := True\<rparr>))"

section \<open>The client\<close>

definition ConnOK :: "32 word" where
  "ConnOK = 0"

definition ConnClosed :: "32 word" where
  "ConnClosed = 1"

text \<open>
  \<open>Options\<close>: only \<open>Timeout\<close> is read by the engine (the other two fields configure the
  logging adapter). A \<open>request\<close> holds the two channels of one in-flight command,
  \<open>eventChan\<close> and \<open>done\<close>.
\<close>

record Options =
  Timeout :: "nat option"

record request =
  eventChan :: "Event chan"
  doneChan :: "unit chan"

text \<open>
  The fields of \<open>Client\<close>. \<open>logger\<close> is the list of entries handed to the logger;
  \<open>conn_closed\<close> tells whether \<open>conn.Close()\<close> has run; \<open>shutdown\<close>, an unbuffered channel,
  is the number of senders waiting on it. The request table \<open>requests\<close> holds pointers:
  \<open>heap\<close> is the list of the \<open>request\<close> objects allocated so far and a \<open>*request\<close> is an
  index into it, so that the session loop, which keeps the pointer it has looked up, and
  the caller that made the request reach the same two channels whatever happens to the
  table meanwhile. The mutex \<open>mu\<close> protects single reads and writes of the table, which are
  atomic steps below.
\<close>

record Client =
  opts :: Options
  logger :: "LogEntry list"
  state :: "32 word"
  conn_closed :: bool
  events :: "Event chan"
  notification :: "Event chan"
  shutdown :: nat
  requests :: "32 word \<rightharpoonup> nat"
  heap :: "request list"

definition logger_log :: "LogEntry \<Rightarrow> Client \<Rightarrow> Client" where
  "logger_log entry c = c\<lparr>logger := logger c @ [entry]\<rparr>"

text \<open>The struct literal of \<open>NewClient\<close>.\<close>

definition new_Client :: "Options \<Rightarrow> Client" where
  "new_Client options =
     \<lparr>opts = options, logger = [], state = ConnOK, conn_closed = False,
      events = make_chan 128, notification = make_chan 128, shutdown = 0,
      requests = Map.empty, heap = []\<rparr>"

text \<open>
  \<open>deref c a\<close> is the request a pointer refers to; a pointer held by the table, by the
  session loop or by a caller always refers to an allocated request.
\<close>

definition deref :: "Client \<Rightarrow> nat \<Rightarrow> request option" where
  "deref c a = (if a < length (heap c) then Some (heap c ! a) else None)"

section \<open>The goroutines and their steps\<close>

text \<open>
  Three goroutines run the engine: the frame reader (\<open>readEvents\<close> inside the goroutine
  that \<open>NewClient\<close> starts), \<open>NewClient\<close> itself, and the session loop \<open>Start\<close>. Each has
  a control point; \<open>Start_ops\<close> is the list of operations the session loop has performed
  on the shared objects, in program order; \<open>received\<close> is what the subscriber of
  \<open>Notifications()\<close> has read; \<open>completed\<close> is what the callers waiting on a request
  have got from it, each with the pointer to its request.
\<close>

datatype reader_pc =
    ReaderNotStarted
  | ReaderLoop
  | ReaderSending Event
  | ReaderReturned error
  | ReaderPanicked

datatype newclient_pc = NCWaiting | NCReturned "error option" | NCPanicked

datatype op =
    OpSendNotification Event
  | OpLookup "32 word"
  | OpSendEvent "32 word" Event
  | OpStore "32 word"
  | OpConnClose
  | OpCloseNotification
  | OpCloseEvents
  | OpSendDone "32 word"
  | OpReturn error

text \<open>
  The control points of \<open>Start\<close>. In \<open>LoopSendingNotification\<close>, \<open>LoopSendingEvent\<close> and
  \<open>LoopSendingDone\<close> the loop is inside a send that has not gone through:
  \<open>c.notification <- event\<close>, \<open>r.eventChan <- event\<close> and \<open>r.done <- struct{}{}\<close>, the last
  two with the pointer \<open>r\<close>. \<open>LoopDraining visited\<close> is the \<open>range\<close> over the table, with the
  keys it has been through.
\<close>

datatype loop_pc =
    LoopIdle
  | LoopSelect
  | LoopSendingNotification Event
  | LoopSendingEvent nat Event
  | LoopShuttingDown
  | LoopStored
  | LoopConnClosed
  | LoopNotificationClosed
  | LoopDraining "32 word list"
  | LoopSendingDone "32 word list" "32 word" nat
  | LoopReturned error
  | LoopPanicked

record system =
  client :: Client
  readEvents_pc :: reader_pc
  NewClient_pc :: newclient_pc
  Start_pc :: loop_pc
  Start_ops :: "op list"
  received :: "Event list"
  completed :: "(nat \<times> (error + Event)) list"

text \<open>
  A panic that no goroutine recovers ends the process: every goroutine stops where it
  is, and so does every caller (they hold the client through \<open>NewClient\<close>'s return).
\<close>

definition panic :: "system \<Rightarrow> system" where
  "panic s = s\<lparr>readEvents_pc := ReaderPanicked, NewClient_pc := NCPanicked,
               Start_pc := LoopPanicked\<rparr>"

subsection \<open>The frame reader\<close>

text \<open>
  One turn of the loop of \<open>readEvents\<close> gets one of three outcomes from the connection:
  \<open>SetDeadline\<close> fails, \<open>Read\<close> fails (whatever it has read), or \<open>Read\<close> returns a chunk.
\<close>

datatype read_outcome =
    SetDeadlineFails error
  | ReadFails string error
  | ReadOk string

text \<open>\<open>c.events <- event\<close> in the reader.\<close>

definition events_send :: "Event \<Rightarrow> Client \<Rightarrow> Client \<times> reader_pc" where
  "events_send event c =
     (case chan_send (events c) event of
        Sent ch \<Rightarrow> (c\<lparr>events := ch\<rparr>, ReaderLoop)
      | SendBlocks \<Rightarrow> (c, ReaderSending event)
      | SendPanics \<Rightarrow> (c, ReaderPanicked))"

text \<open>The log entry for a decoded event.\<close>

definition decoded_entry :: "Event \<Rightarrow> LogEntry" where
  "decoded_entry event =
     newLogEntry LogLevelInfo ''Event has decoded.''
       [(''keyword'', LString (Keyword event)),
        (''type'', LType (Type event)),
        (''client'', LString (Client event)),
        (''process_id'', LNat (ProcessID event)),
        (''invoke_id'', LWord (InvokeID event)),
        (''segments'', LNat (Segments event)),
        (''incomplete'', LBool (Incomplete event))]"

text \<open>
  The body of the loop after a successful \<open>Read\<close> of the chunk \<open>chunk\<close> (\<open>buf[:n]\<close>):
  \<open>buf[n-1]\<close> is out of range when \<open>n = 0\<close>.
\<close>

definition readEvents_chunk :: "externals \<Rightarrow> string \<Rightarrow> Client \<Rightarrow> Client \<times> reader_pc" where
  "readEvents_chunk x chunk c =
     (if chunk = [] then (c, ReaderPanicked)
      else if last chunk = ETX x \<or> last chunk = ETB x then
        (let c1 = logger_log (newLogEntry LogLevelDebug ''Event has received.''
                     [(''raw'', LString chunk)]) c
         in case decodeEvent x chunk of
              Inl err \<Rightarrow>
                (logger_log (newLogEntry LogLevelError ''Error while decoding an event!''
                     [(''error'', LError err)]) c1, ReaderLoop)
            | Inr event \<Rightarrow> events_send event (logger_log (decoded_entry event) c1))
      else (c, ReaderLoop))"

text \<open>
  \<open>readEvents\<close> returns \<open>err\<close>: the goroutine logs it and sends on \<open>c.shutdown\<close>, where it
  waits for the session loop.
\<close>

definition readEvents_return :: "error \<Rightarrow> Client \<Rightarrow> Client \<times> reader_pc" where
  "readEvents_return err c =
     (let c1 = (if err = io_EOF
                then logger_log (newLogEntry LogLevelError ''EOF received!''
                       [(''error'', LError err)]) c
                else logger_log (newLogEntry LogLevelError ''Error received!''
                       [(''error'', LError err)]) c)
      in (c1\<lparr>shutdown := shutdown c1 + 1\<rparr>, ReaderReturned err))"

text \<open>
  One turn of the loop. A deadline is set only when a timeout is configured; a chunk has
  at most the 4096 bytes of the buffer; a closed connection gives no more chunks.
\<close>

definition readEvents_iter ::
  "externals \<Rightarrow> read_outcome \<Rightarrow> Client \<Rightarrow> (Client \<times> reader_pc) option" where
  "readEvents_iter x outcome c =
     (case outcome of
        SetDeadlineFails err \<Rightarrow>
          (if Timeout (opts c) = None then None
           else Some (readEvents_return err
                  (logger_log (newLogEntry LogLevelError ''Error while setting a deadline!''
                     [(''error'', LError err)]) c)))
      | ReadFails chunk err \<Rightarrow> Some (readEvents_return err c)
      | ReadOk chunk \<Rightarrow>
          (if conn_closed c \<or> 4096 < length chunk then None
           else Some (readEvents_chunk x chunk c)))"

text \<open>
  The reader goroutine has moved, to the client \<open>c\<close> and the control point \<open>pc\<close>; when it
  has panicked the process ends.
\<close>

definition reader_moves :: "Client \<times> reader_pc \<Rightarrow> system \<Rightarrow> system" where
  "reader_moves r s =
     (case r of
        (c, pc) \<Rightarrow>
          if pc = ReaderPanicked then panic (s\<lparr>client := c\<rparr>)
          else s\<lparr>client := c, readEvents_pc := pc\<rparr>)"

subsection \<open>Construction\<close>

text \<open>
  \<open>NewClient\<close> up to the start of the reader: the two calls into the TLS library may fail,
  and then the function returns before there is a client.
\<close>

definition NewClient_begin :: "error option \<Rightarrow> error option \<Rightarrow> Options \<Rightarrow> system" where
  "NewClient_begin ctx_err dial_err options =
     (case ctx_err of
        Some err \<Rightarrow>
          \<lparr>client = (new_Client options)\<lparr>conn_closed := True\<rparr>,
           readEvents_pc = ReaderNotStarted,
           NewClient_pc = NCReturned (Some (ErrWrap ''error while initializing OpenSSL context'' err)),
           Start_pc = LoopIdle, Start_ops = [], received = [], completed = []\<rparr>
      | None \<Rightarrow>
         (case dial_err of
            Some err \<Rightarrow>
              \<lparr>client = (new_Client options)\<lparr>conn_closed := True\<rparr>,
               readEvents_pc = ReaderNotStarted,
               NewClient_pc = NCReturned (Some (ErrWrap ''error while dialing'' err)),
               Start_pc = LoopIdle, Start_ops = [], received = [], completed = []\<rparr>
          | None \<Rightarrow>
              \<lparr>client = new_Client options,
               readEvents_pc = ReaderLoop,
               NewClient_pc = NCWaiting,
               Start_pc = LoopIdle, Start_ops = [], received = [], completed = []\<rparr>))"

text \<open>
  The rest of \<open>NewClient\<close>: \<open>event := <-c.events\<close> and the check of the first event. The
  result is the error returned, \<open>None\<close> for \<open>(c, nil)\<close>. A receive on a closed empty
  channel gives the zero event, whose keyword is empty.
\<close>

definition NewClient_handshake :: "externals \<Rightarrow> Client \<Rightarrow> (Client \<times> error option) option" where
  "NewClient_handshake x c =
     (case chan_recv (events c) of
        RecvBlocks \<Rightarrow> None
      | RecvClosed \<Rightarrow>
          Some (logger_log (newLogEntry LogLevelError ''Server cannot accept new clients!'' []) c,
                Some ErrHelloNotReceived)
      | Received event ch \<Rightarrow>
          (if Keyword event \<noteq> ''AGTSTART'' \<or> \<not> IsStart x event
           then Some (logger_log (newLogEntry LogLevelError ''Server cannot accept new clients!'' [])
                        (c\<lparr>events := ch\<rparr>),
                      Some ErrHelloNotReceived)
           else Some (c\<lparr>events := ch\<rparr>, None)))"

subsection \<open>The session loop\<close>

text \<open>\<open>c.notification <- event\<close>: a send on a closed channel panics.\<close>

definition notification_send :: "Event \<Rightarrow> system \<Rightarrow> system option" where
  "notification_send event s =
     (case chan_send (notification (client s)) event of
        Sent ch \<Rightarrow>
          Some (s\<lparr>client := (client s)\<lparr>notification := ch\<rparr>,
                  Start_pc := LoopSelect,
                  Start_ops := Start_ops s @ [OpSendNotification event]\<rparr>)
      | SendBlocks \<Rightarrow> Some (s\<lparr>Start_pc := LoopSendingNotification event\<rparr>)
      | SendPanics \<Rightarrow> Some (panic s))"

text \<open>
  \<open>r.eventChan <- event\<close>, \<open>r\<close> being the pointer \<open>a\<close>: the send goes through when the
  channel has room in its buffer; otherwise the loop waits in it, until there is room or
  a receiver takes the event from it (\<open>await_event\<close> below).
\<close>

definition eventChan_send :: "nat \<Rightarrow> Event \<Rightarrow> system \<Rightarrow> system option" where
  "eventChan_send a event s =
     (case deref (client s) a of
        None \<Rightarrow> None
      | Some r \<Rightarrow>
          (case chan_send (eventChan r) event of
             Sent ch \<Rightarrow>
               Some (s\<lparr>client := (client s)
                         \<lparr>heap := (heap (client s))[a := r\<lparr>eventChan := ch\<rparr>]\<rparr>,
                       Start_pc := LoopSelect,
                       Start_ops := Start_ops s @ [OpSendEvent (InvokeID event) event]\<rparr>)
           | SendBlocks \<Rightarrow> Some (s\<lparr>Start_pc := LoopSendingEvent a event\<rparr>)
           | SendPanics \<Rightarrow> Some (panic s)))"

text \<open>
  The first case of the \<open>select\<close>: an event is taken from \<open>c.events\<close>. A notification goes
  to \<open>c.notification\<close>; any other event is looked up in the table under the read lock and,
  when a request is found, sent on its \<open>eventChan\<close>. The queue is closed by the loop alone,
  on its way out, so the loop at its \<open>select\<close> never meets a closed queue (\<open>loop_inv\<close> below).
\<close>

definition Start_event :: "Event \<Rightarrow> system \<Rightarrow> system option" where
  "Start_event event s =
     (if Type event = EventTypeNotification then notification_send event s
      else
        (case requests (client s) (InvokeID event) of
           Some a \<Rightarrow>
             eventChan_send a event (s\<lparr>Start_ops := Start_ops s @ [OpLookup (InvokeID event)]\<rparr>)
         | None \<Rightarrow>
             Some (s\<lparr>Start_ops := Start_ops s @ [OpLookup (InvokeID event)]\<rparr>)))"

definition Start_recv_event :: "system \<Rightarrow> system option" where
  "Start_recv_event s =
     (if Start_pc s \<noteq> LoopSelect then None
      else
        (case chan_recv (events (client s)) of
           Received event ch \<Rightarrow> Start_event event (s\<lparr>client := (client s)\<lparr>events := ch\<rparr>\<rparr>)
         | RecvBlocks \<Rightarrow> None
         | RecvClosed \<Rightarrow> None))"

text \<open>A send on \<open>c.notification\<close> that had to wait goes through.\<close>

definition Start_send_notification :: "system \<Rightarrow> system option" where
  "Start_send_notification s =
     (case Start_pc s of
        LoopSendingNotification event \<Rightarrow>
          (case chan_send (notification (client s)) event of
             SendBlocks \<Rightarrow> None
           | _ \<Rightarrow> notification_send event s)
      | _ \<Rightarrow> None)"

text \<open>A send on \<open>r.eventChan\<close> that had to wait goes through, the buffer having room.\<close>

definition Start_send_event :: "system \<Rightarrow> system option" where
  "Start_send_event s =
     (case Start_pc s of
        LoopSendingEvent a event \<Rightarrow>
          (case deref (client s) a of
             None \<Rightarrow> None
           | Some r \<Rightarrow>
               (case chan_send (eventChan r) event of
                  SendBlocks \<Rightarrow> None
                | _ \<Rightarrow> eventChan_send a event s))
      | _ \<Rightarrow> None)"

text \<open>
  The second case of the \<open>select\<close>: a sender on \<open>c.shutdown\<close> is released.
\<close>

definition Start_recv_shutdown :: "system \<Rightarrow> system option" where
  "Start_recv_shutdown s =
     (if Start_pc s = LoopSelect \<and> 0 < shutdown (client s)
      then Some (s\<lparr>client := (client s)\<lparr>shutdown := shutdown (client s) - 1\<rparr>,
                   Start_pc := LoopShuttingDown\<rparr>)
      else None)"

text \<open>
  The statements of that case, one at a time: \<open>c.state.Store(ConnClosed)\<close>,
  \<open>c.conn.Close()\<close>, \<open>close(c.notification)\<close>, \<open>close(c.events)\<close> (closing a closed
  channel panics), and, when the \<open>range\<close> over the table has no entry left to visit,
  \<open>return ErrConnectionClosed\<close>.
\<close>

definition Start_next :: "system \<Rightarrow> system option" where
  "Start_next s =
     (case Start_pc s of
        LoopShuttingDown \<Rightarrow>
          Some (s\<lparr>client := (client s)\<lparr>state := ConnClosed\<rparr>,
                  Start_pc := LoopStored,
                  Start_ops := Start_ops s @ [OpStore ConnClosed]\<rparr>)
      | LoopStored \<Rightarrow>
          Some (s\<lparr>client := (client s)\<lparr>conn_closed := True\<rparr>,
                  Start_pc := LoopConnClosed,
                  Start_ops := Start_ops s @ [OpConnClose]\<rparr>)
      | LoopConnClosed \<Rightarrow>
          (case chan_close (notification (client s)) of
             None \<Rightarrow> Some (panic s)
           | Some ch \<Rightarrow>
               Some (s\<lparr>client := (client s)\<lparr>notification := ch\<rparr>,
                       Start_pc := LoopNotificationClosed,
                       Start_ops := Start_ops s @ [OpCloseNotification]\<rparr>))
      | LoopNotificationClosed \<Rightarrow>
          (case chan_close (events (client s)) of
             None \<Rightarrow> Some (panic s)
           | Some ch \<Rightarrow>
               Some (s\<lparr>client := (client s)\<lparr>events := ch\<rparr>,
                       Start_pc := LoopDraining [],
                       Start_ops := Start_ops s @ [OpCloseEvents]\<rparr>))
      | LoopDraining visited \<Rightarrow>
          (if dom (requests (client s)) \<subseteq> set visited
           then Some (s\<lparr>Start_pc := LoopReturned ErrConnectionClosed,
                        Start_ops := Start_ops s @ [OpReturn ErrConnectionClosed]\<rparr>)
           else None)
      | _ \<Rightarrow> None)"

text \<open>
  \<open>r.done <- struct{}{}\<close> for the entry under the key \<open>i\<close>, \<open>r\<close> being the pointer \<open>a\<close>:
  like the send on \<open>eventChan\<close>, it goes through when the buffer has room and waits
  otherwise, until there is room or a receiver takes the signal (\<open>await_done\<close> below).
\<close>

definition doneChan_send :: "32 word list \<Rightarrow> 32 word \<Rightarrow> nat \<Rightarrow> system \<Rightarrow> system option" where
  "doneChan_send visited i a s =
     (case deref (client s) a of
        None \<Rightarrow> None
      | Some r \<Rightarrow>
          (case chan_send (doneChan r) () of
             Sent ch \<Rightarrow>
               Some (s\<lparr>client := (client s)
                         \<lparr>heap := (heap (client s))[a := r\<lparr>doneChan := ch\<rparr>]\<rparr>,
                       Start_pc := LoopDraining (visited @ [i]),
                       Start_ops := Start_ops s @ [OpSendDone i]\<rparr>)
           | SendBlocks \<Rightarrow> Some (s\<lparr>Start_pc := LoopSendingDone visited i a\<rparr>)
           | SendPanics \<Rightarrow> Some (panic s)))"

text \<open>
  One turn of \<open>for _, r := range c.requests\<close>: the loop reaches an entry it has not visited
  (Go fixes no order) and sends on its \<open>done\<close>.
\<close>

definition Start_drain :: "32 word \<Rightarrow> system \<Rightarrow> system option" where
  "Start_drain i s =
     (case Start_pc s of
        LoopDraining visited \<Rightarrow>
          (case requests (client s) i of
             Some a \<Rightarrow> (if i \<in> set visited then None else doneChan_send visited i a s)
           | None \<Rightarrow> None)
      | _ \<Rightarrow> None)"

text \<open>A send on \<open>r.done\<close> that had to wait goes through, the buffer having room.\<close>

definition Start_send_done :: "system \<Rightarrow> system option" where
  "Start_send_done s =
     (case Start_pc s of
        LoopSendingDone visited i a \<Rightarrow>
          (case deref (client s) a of
             None \<Rightarrow> None
           | Some r \<Rightarrow>
               (case chan_send (doneChan r) () of
                  SendBlocks \<Rightarrow> None
                | _ \<Rightarrow> doneChan_send visited i a s))
      | _ \<Rightarrow> None)"

subsection \<open>Callers\<close>

text \<open>
  Modelled from the spec: the code that issues a command (it registers a request, waits for
  the response and removes the request) lies outside the files embedded here.
  Registration follows the data model (once the state is Closed an attempt fails at once
  with the closed-connection error, nothing being registered) and step 2 of the invocation
  sequence (a new entry, with a request of its own, under an identifier that no pending
  request holds). The two channels of the request are made without a buffer: the signal
  is single-use, and the spec describes the write of the shutdown signal as blocking.
  \<open>unregister\<close> is step 5.
\<close>

definition register :: "32 word \<Rightarrow> Client \<Rightarrow> error + Client" where
  "register i c =
     (if state c = ConnClosed then Inl ErrConnectionClosed
      else Inr (c\<lparr>requests := (requests c)(i \<mapsto> length (heap c)),
                  heap := heap c @ [\<lparr>eventChan = make_chan 0, doneChan = make_chan 0\<rparr>]\<rparr>))"

definition unregister :: "32 word \<Rightarrow> Client \<Rightarrow> Client" where
  "unregister i c = c\<lparr>requests := (requests c)(i := None)\<rparr>"

text \<open>
  Modelled from the spec: step 4 of the invocation sequence, the caller blocked on the
  completion signal of its request (the pointer \<open>a\<close>). \<open>await_event\<close> is the receive on
  \<open>eventChan\<close>: it takes the oldest buffered event or, the buffer being empty, the event
  the session loop is waiting to send on that channel, and the loop's send is through.
  \<open>await_done\<close> is the receive on \<open>done\<close>, which gives the closed-connection error.
  Nothing closes the two channels, and a caller waits once.
\<close>

definition await_event :: "nat \<Rightarrow> system \<Rightarrow> system option" where
  "await_event a s =
     (case deref (client s) a of
        None \<Rightarrow> None
      | Some r \<Rightarrow>
          (case chan_recv (eventChan r) of
             Received event ch \<Rightarrow>
               Some (s\<lparr>client := (client s)
                         \<lparr>heap := (heap (client s))[a := r\<lparr>eventChan := ch\<rparr>]\<rparr>,
                       completed := completed s @ [(a, Inr event)]\<rparr>)
           | RecvClosed \<Rightarrow> None
           | RecvBlocks \<Rightarrow>
               (case Start_pc s of
                  LoopSendingEvent a' event \<Rightarrow>
                    (if a' = a
                     then Some (s\<lparr>Start_pc := LoopSelect,
                                  Start_ops := Start_ops s @ [OpSendEvent (InvokeID event) event],
                                  completed := completed s @ [(a, Inr event)]\<rparr>)
                     else None)
                | _ \<Rightarrow> None)))"

definition await_done :: "nat \<Rightarrow> system \<Rightarrow> system option" where
  "await_done a s =
     (case deref (client s) a of
        None \<Rightarrow> None
      | Some r \<Rightarrow>
          (case chan_recv (doneChan r) of
             Received u ch \<Rightarrow>
               Some (s\<lparr>client := (client s)
                         \<lparr>heap := (heap (client s))[a := r\<lparr>doneChan := ch\<rparr>]\<rparr>,
                       completed := completed s @ [(a, Inl ErrConnectionClosed)]\<rparr>)
           | RecvClosed \<Rightarrow> None
           | RecvBlocks \<Rightarrow>
               (case Start_pc s of
                  LoopSendingDone visited i a' \<Rightarrow>
                    (if a' = a
                     then Some (s\<lparr>Start_pc := LoopDraining (visited @ [i]),
                                  Start_ops := Start_ops s @ [OpSendDone i],
                                  completed := completed s @ [(a, Inl ErrConnectionClosed)]\<rparr>)
                     else None)
                | _ \<Rightarrow> None)))"

text \<open>\<open>Stop\<close>: one more sender waits on \<open>c.shutdown\<close>.\<close>

definition Stop :: "Client \<Rightarrow> Client" where
  "Stop c = c\<lparr>shutdown := shutdown c + 1\<rparr>"

subsection \<open>The system\<close>

text \<open>
  A schedule is a list of labels; each names the goroutine that moves and what it meets.
  \<open>step\<close> is \<open>None\<close> when that move is not possible in the state (the goroutine is blocked,
  elsewhere, or ended). Callers and subscribers hold the client only after \<open>NewClient\<close>
  has returned it, and a caller waits on its request once.
\<close>

datatype label =
    ReaderIter read_outcome
  | ReaderSend
  | Handshake
  | StartCall
  | LoopRecvEvent
  | LoopSendNotification
  | LoopSendEvent
  | LoopRecvShutdown
  | LoopNext
  | LoopDrain "32 word"
  | LoopSendDone
  | StopCall
  | Consume
  | Register "32 word"
  | Unregister "32 word"
  | AwaitEvent nat
  | AwaitDone nat

fun step :: "externals \<Rightarrow> label \<Rightarrow> system \<Rightarrow> system option" where
  "step x (ReaderIter outcome) s =
     (if readEvents_pc s \<noteq> ReaderLoop then None
      else (case readEvents_iter x outcome (client s) of
              None \<Rightarrow> None
            | Some r \<Rightarrow> Some (reader_moves r s)))"
| "step x ReaderSend s =
     (case readEvents_pc s of
        ReaderSending event \<Rightarrow>
          (case chan_send (events (client s)) event of
             SendBlocks \<Rightarrow> None
           | _ \<Rightarrow> Some (reader_moves (events_send event (client s)) s))
      | _ \<Rightarrow> None)"
| "step x Handshake s =
     (if NewClient_pc s \<noteq> NCWaiting then None
      else (case NewClient_handshake x (client s) of
              None \<Rightarrow> None
            | Some (c, r) \<Rightarrow> Some (s\<lparr>client := c, NewClient_pc := NCReturned r\<rparr>)))"
| "step x StartCall s =
     (if NewClient_pc s = NCReturned None \<and> Start_pc s = LoopIdle
      then Some (s\<lparr>Start_pc := LoopSelect\<rparr>) else None)"
| "step x LoopRecvEvent s = Start_recv_event s"
| "step x LoopSendNotification s = Start_send_notification s"
| "step x LoopSendEvent s = Start_send_event s"
| "step x LoopRecvShutdown s = Start_recv_shutdown s"
| "step x LoopNext s = Start_next s"
| "step x (LoopDrain i) s = Start_drain i s"
| "step x LoopSendDone s = Start_send_done s"
| "step x StopCall s =
     (if NewClient_pc s = NCReturned None then Some (s\<lparr>client := Stop (client s)\<rparr>) else None)"
| "step x Consume s =
     (if NewClient_pc s \<noteq> NCReturned None then None
      else (case chan_recv (notification (client s)) of
              Received event ch \<Rightarrow>
                Some (s\<lparr>client := (client s)\<lparr>notification := ch\<rparr>,
                        received := received s @ [event]\<rparr>)
            | _ \<Rightarrow> None))"
| "step x (Register i) s =
     (if NewClient_pc s \<noteq> NCReturned None \<or> i \<in> dom (requests (client s)) then None
      else (case register i (client s) of
              Inl err \<Rightarrow> Some s
            | Inr c \<Rightarrow> Some (s\<lparr>client := c\<rparr>)))"
| "step x (Unregister i) s =
     (if NewClient_pc s \<noteq> NCReturned None then None
      else Some (s\<lparr>client := unregister i (client s)\<rparr>))"
| "step x (AwaitEvent a) s =
     (if NewClient_pc s \<noteq> NCReturned None \<or> a \<in> fst ` set (completed s) then None
      else await_event a s)"
| "step x (AwaitDone a) s =
     (if NewClient_pc s \<noteq> NCReturned None \<or> a \<in> fst ` set (completed s) then None
      else await_done a s)"

fun run :: "externals \<Rightarrow> label list \<Rightarrow> system \<Rightarrow> system option" where
  "run x [] s = Some s"
| "run x (l # ls) s = (case step x l s of None \<Rightarrow> None | Some s' \<Rightarrow> run x ls s')"

section \<open>Properties of reachable states\<close>

definition channels_open :: "Client \<Rightarrow> bool" where
  "channels_open c = (\<not> closed (notification c) \<and> \<not> closed (events c))"

text \<open>
  What holds at each control point of the session loop: how far the state, the connection
  and the two channels have been closed. When the process has ended by a panic, the
  state is still one of the two values.
\<close>

fun loop_inv :: "loop_pc \<Rightarrow> Client \<Rightarrow> bool" where
  "loop_inv LoopIdle c = (state c = ConnOK \<and> channels_open c)"
| "loop_inv LoopSelect c = (state c = ConnOK \<and> channels_open c)"
| "loop_inv (LoopSendingNotification event) c = (state c = ConnOK \<and> channels_open c)"
| "loop_inv (LoopSendingEvent a event) c = (state c = ConnOK \<and> channels_open c)"
| "loop_inv LoopShuttingDown c = (state c = ConnOK \<and> channels_open c)"
| "loop_inv LoopStored c = (state c = ConnClosed \<and> channels_open c)"
| "loop_inv LoopConnClosed c = (state c = ConnClosed \<and> conn_closed c \<and> channels_open c)"
| "loop_inv LoopNotificationClosed c =
     (state c = ConnClosed \<and> conn_closed c \<and>
      closed (notification c) \<and> \<not> closed (events c))"
| "loop_inv (LoopDraining visited) c =
     (state c = ConnClosed \<and> conn_closed c \<and>
      closed (notification c) \<and> closed (events c))"
| "loop_inv (LoopSendingDone visited i a) c =
     (state c = ConnClosed \<and> conn_closed c \<and>
      closed (notification c) \<and> closed (events c))"
| "loop_inv (LoopReturned err) c =
     (err = ErrConnectionClosed \<and> state c = ConnClosed \<and> conn_closed c \<and>
      closed (notification c) \<and> closed (events c))"
| "loop_inv LoopPanicked c = (state c = ConnOK \<or> state c = ConnClosed)"

definition inv :: "system \<Rightarrow> bool" where
  "inv s = loop_inv (Start_pc s) (client s)"

text \<open>
  While \<open>NewClient\<close> is waiting for the first event, or has returned an error, the session
  loop has not started, nothing has been forwarded or read by a subscriber, and no
  command is registered.
\<close>

fun no_client :: "newclient_pc \<Rightarrow> bool" where
  "no_client NCWaiting = True"
| "no_client (NCReturned r) = (r \<noteq> None)"
| "no_client NCPanicked = False"

definition before_return :: "system \<Rightarrow> bool" where
  "before_return s =
     (no_client (NewClient_pc s) \<longrightarrow>
        Start_pc s = LoopIdle \<and> Start_ops s = [] \<and> buf (notification (client s)) = [] \<and>
        received s = [] \<and> requests (client s) = Map.empty)"

text \<open>\<open>absent e s\<close>: the event \<open>e\<close> is nowhere on its way to a subscriber.\<close>

definition absent :: "Event \<Rightarrow> system \<Rightarrow> bool" where
  "absent e s =
     (e \<notin> set (buf (events (client s))) \<and> e \<notin> set (buf (notification (client s))) \<and>
      e \<notin> set (received s) \<and> Start_pc s \<noteq> LoopSendingNotification e \<and>
      readEvents_pc s \<noteq> ReaderSending e \<and> OpSendNotification e \<notin> set (Start_ops s))"

section \<open>A concrete instance\<close>

text \<open>
  An instance of the parameters, to run the model on concrete inputs: the terminators are
  the ASCII control characters ETX and ETB; the decoder reads the kind from the first
  character of a record and the keyword from the rest.
\<close>

definition sample_event :: "string \<Rightarrow> EventType \<Rightarrow> 32 word \<Rightarrow> Event" where
  "sample_event kw ty i =
     \<lparr>Keyword = kw, Type = ty, Client = ''Agent'', ProcessID = 1, InvokeID = i,
      Segments = 1, Incomplete = False, Payload = Inr ''S''\<rparr>"

definition sample_decodeEvent :: "string \<Rightarrow> error + Event" where
  "sample_decodeEvent raw =
     (case raw of
        t # rest \<Rightarrow>
          if t = CHR ''N'' then Inr (sample_event (butlast rest) EventTypeNotification 0)
          else if t = CHR ''R'' then Inr (sample_event (butlast rest) EventTypeResponse 7)
          else Inl (ErrOther ''unknown event type'')
      | [] \<Rightarrow> Inl (ErrOther ''empty record''))"

definition sample_externals :: externals where
  "sample_externals =
     \<lparr>ETX = CHR 0x03, ETB = CHR 0x17, decodeEvent = sample_decodeEvent,
      IsStart = (\<lambda>e. Type e = EventTypeNotification \<and> Payload e = Inr ''S'')\<rparr>"

definition sample_options :: Options where
  "sample_options = \<lparr>Timeout = Some 30\<rparr>"

text \<open>
  The shutdown case of the session loop running from the \<open>select\<close> to the return, over the
  entries \<open>waits\<close> of the table, each a key with its pointer: the loop sends on \<open>done\<close> and
  the caller of that request receives the signal.
\<close>

definition shutdown_schedule :: "(32 word \<times> nat) list \<Rightarrow> label list" where
  "shutdown_schedule waits =
     [LoopRecvShutdown, LoopNext, LoopNext, LoopNext, LoopNext] @
     concat (map (\<lambda>(i, a). [LoopDrain i, AwaitDone a]) waits) @ [LoopNext]"

text \<open>
  Two schedules. In \<open>sample_stop_prefix\<close> the client is built, the session loop started, a
  command registered and \<open>Stop\<close> called. In \<open>sample_stop_run\<close> three commands are registered
  around the stop request (before it, after it, and after the loop has taken the shutdown
  case), a fourth is attempted after the store, and the loop runs to its return, each of
  the three callers taking its signal when the loop sends it.
\<close>

definition sample_stop_prefix :: "label list" where
  "sample_stop_prefix = [ReaderIter (ReadOk (''NAGTSTART'' @ [CHR 0x03])), Handshake, StartCall,
     Register 7, StopCall]"

definition sample_stop_run :: "label list" where
  "sample_stop_run = [ReaderIter (ReadOk (''NAGTSTART'' @ [CHR 0x03])), Handshake, StartCall,
     Register 7, StopCall, Register 9, LoopRecvShutdown, Register 11, LoopNext, Register 13,
     LoopNext, LoopNext, LoopNext, LoopDrain 9, AwaitDone 1, LoopDrain 7, AwaitDone 0,
     LoopDrain 11, AwaitDone 2, LoopNext]"

text \<open>
  \<open>sample_started\<close>: the client is built and the session loop started; in
  \<open>sample_running\<close> a command is registered as well. \<open>sample_call\<close> is the record of a
  notification; \<open>sample_flood n\<close> reads it \<open>n\<close> times, the session loop forwarding each
  one while nobody reads the notification channel; \<open>flooded n\<close> is the state this gives.
\<close>

definition sample_started :: "label list" where
  "sample_started = [ReaderIter (ReadOk (''NAGTSTART'' @ [CHR 0x03])), Handshake, StartCall]"

definition sample_running :: "label list" where
  "sample_running = [ReaderIter (ReadOk (''NAGTSTART'' @ [CHR 0x03])), Handshake, StartCall,
     Register 7]"

definition sample_call :: string where
  "sample_call = ''NCALL'' @ [CHR 0x03]"

definition sample_flood :: "nat \<Rightarrow> label list" where
  "sample_flood n = concat (replicate n [ReaderIter (ReadOk sample_call), LoopRecvEvent])"

definition flooded :: "nat \<Rightarrow> system" where
  "flooded n =
     \<lparr>client =
        \<lparr>opts = sample_options,
         logger =
           [newLogEntry LogLevelDebug ''Event has received.''
              [(''raw'', LString (''NAGTSTART'' @ [CHR 0x03]))],
            decoded_entry (sample_event ''AGTSTART'' EventTypeNotification 0)] @
           concat (replicate n
             [newLogEntry LogLevelDebug ''Event has received.'' [(''raw'', LString sample_call)],
              decoded_entry (sample_event ''CALL'' EventTypeNotification 0)]),
         state = ConnOK, conn_closed = False,
         events = \<lparr>buf = [], cap = 128, closed = False\<rparr>,
         notification =
           \<lparr>buf = replicate n (sample_event ''CALL'' EventTypeNotification 0), cap = 128,
            closed = False\<rparr>,
         shutdown = 0, requests = Map.empty, heap = []\<rparr>,
      readEvents_pc = ReaderLoop, NewClient_pc = NCReturned None, Start_pc = LoopSelect,
      Start_ops = replicate n (OpSendNotification (sample_event ''CALL'' EventTypeNotification 0)),
      received = [], completed = []\<rparr>"

text \<open>
  \<open>sample_burst n\<close>: \<open>n\<close> records arrive one after the other while the session loop, at
  its \<open>select\<close>, has not yet taken any; \<open>queued n\<close> is the state this gives after
  \<open>sample_running\<close>, as long as the event queue has room.
\<close>

definition sample_burst :: "nat \<Rightarrow> label list" where
  "sample_burst n = replicate n (ReaderIter (ReadOk sample_call))"

definition queued :: "nat \<Rightarrow> system" where
  "queued n =
     \<lparr>client =
        \<lparr>opts = sample_options,
         logger =
           [newLogEntry LogLevelDebug ''Event has received.''
              [(''raw'', LString (''NAGTSTART'' @ [CHR 0x03]))],
            decoded_entry (sample_event ''AGTSTART'' EventTypeNotification 0)] @
           concat (replicate n
             [newLogEntry LogLevelDebug ''Event has received.'' [(''raw'', LString sample_call)],
              decoded_entry (sample_event ''CALL'' EventTypeNotification 0)]),
         state = ConnOK, conn_closed = False,
         events =
           \<lparr>buf = replicate n (sample_event ''CALL'' EventTypeNotification 0), cap = 128,
            closed = False\<rparr>,
         notification = \<lparr>buf = [], cap = 128, closed = False\<rparr>,
         shutdown = 0, requests = [7 \<mapsto> 0],
         heap = [\<lparr>eventChan = make_chan 0, doneChan = make_chan 0\<rparr>]\<rparr>,
      readEvents_pc = ReaderLoop, NewClient_pc = NCReturned None, Start_pc = LoopSelect,
      Start_ops = [], received = [], completed = []\<rparr>"

text \<open>
  \<open>sample_stop_burst\<close>: with the queue full and the reader waiting in its send, \<open>Stop\<close> is
  called, the session loop takes the shutdown case and runs it down to \<open>close(c.events)\<close>,
  and the reader's send meets the closed queue.
\<close>

definition sample_stop_burst :: "label list" where
  "sample_stop_burst =
     [ReaderIter (ReadOk sample_call), StopCall, LoopRecvShutdown, LoopNext, LoopNext, LoopNext,
      LoopNext, ReaderSend]"

text \<open>\<open>sample_response\<close>: a response with invoke id 7 is read and taken by the session loop.\<close>

definition sample_response :: "label list" where
  "sample_response = [ReaderIter (ReadOk (''ROK'' @ [CHR 0x03])), LoopRecvEvent]"

section \<open>The frame reader\<close>

lemma reader_moves_simps:
  "pc \<noteq> ReaderPanicked \<Longrightarrow> reader_moves (c, pc) s = s\<lparr>client := c, readEvents_pc := pc\<rparr>"
  "reader_moves (c, ReaderPanicked) s = panic (s\<lparr>client := c\<rparr>)"
  by (simp_all add: reader_moves_def)

lemma readEvents_chunk_discarded:
  assumes "chunk \<noteq> []" and "last chunk \<noteq> ETX x" and "last chunk \<noteq> ETB x"
  shows "readEvents_chunk x chunk c = (c, ReaderLoop)"
  using assms by (simp add: readEvents_chunk_def)

lemma readEvents_chunk_decode_fails:
  assumes "chunk \<noteq> []" and "last chunk = ETX x \<or> last chunk = ETB x"
    and "decodeEvent x chunk = Inl err"
  shows "readEvents_chunk x chunk c =
           (c\<lparr>logger := logger c @
                 [newLogEntry LogLevelDebug ''Event has received.'' [(''raw'', LString chunk)],
                  newLogEntry LogLevelError ''Error while decoding an event!''
                    [(''error'', LError err)]]\<rparr>, ReaderLoop)"
  using assms by (auto simp add: readEvents_chunk_def logger_log_def)

lemma readEvents_chunk_decode_ok:
  assumes "chunk \<noteq> []" and "last chunk = ETX x \<or> last chunk = ETB x"
    and "decodeEvent x chunk = Inr event"
    and "\<not> closed (events c)" and "length (buf (events c)) < cap (events c)"
  shows "readEvents_chunk x chunk c =
           (c\<lparr>logger := logger c @
                 [newLogEntry LogLevelDebug ''Event has received.'' [(''raw'', LString chunk)],
                  decoded_entry event],
               events := (events c)\<lparr>buf := buf (events c) @ [event]\<rparr>\<rparr>, ReaderLoop)"
  using assms
  by (auto simp add: readEvents_chunk_def logger_log_def events_send_def chan_send_def)

lemma readEvents_chunk_decode_full:
  assumes "chunk \<noteq> []" and "last chunk = ETX x \<or> last chunk = ETB x"
    and "decodeEvent x chunk = Inr event"
    and "\<not> closed (events c)" and "\<not> length (buf (events c)) < cap (events c)"
  shows "readEvents_chunk x chunk c =
           (c\<lparr>logger := logger c @
                 [newLogEntry LogLevelDebug ''Event has received.'' [(''raw'', LString chunk)],
                  decoded_entry event]\<rparr>, ReaderSending event)"
  using assms
  by (auto simp add: readEvents_chunk_def logger_log_def events_send_def chan_send_def)

lemma readEvents_chunk_decode_closed:
  assumes "chunk \<noteq> []" and "last chunk = ETX x \<or> last chunk = ETB x"
    and "decodeEvent x chunk = Inr event" and "closed (events c)"
  shows "readEvents_chunk x chunk c =
           (c\<lparr>logger := logger c @
                 [newLogEntry LogLevelDebug ''Event has received.'' [(''raw'', LString chunk)],
                  decoded_entry event]\<rparr>, ReaderPanicked)"
  using assms
  by (auto simp add: readEvents_chunk_def logger_log_def events_send_def chan_send_def)

lemma system_client_neq: "client t \<noteq> client s \<Longrightarrow> t \<noteq> s"
  by auto

text \<open>
  C4. A chunk read by the frame reader is treated as a complete record exactly when its
  last byte is one of the two terminators. A chunk that ends otherwise is dropped: the
  step leaves the whole state as it was, so nothing is kept for reassembly, and reading
  such a chunk and then another one is the same as reading the other one alone. A chunk
  that ends in a terminator is logged and handed to the decoder as it is: when it decodes
  to an event, the event is logged and sent on the event queue (appended when the queue
  has room, the reader waiting in the send with that event when it is full, the process
  ending by a panic when the queue is closed); when it does not decode, the failure is
  logged.
\<close>

theorem frame_complete_iff_terminator:
  assumes "readEvents_pc s = ReaderLoop" and "\<not> conn_closed (client s)"
    and "chunk \<noteq> []" and "length chunk \<le> 4096"
  shows "((step x (ReaderIter (ReadOk chunk)) s = Some s) =
            (last chunk \<noteq> ETX x \<and> last chunk \<noteq> ETB x)) \<and>
         (\<forall>event. (last chunk = ETX x \<or> last chunk = ETB x) \<and>
             decodeEvent x chunk = Inr event \<longrightarrow>
             step x (ReaderIter (ReadOk chunk)) s =
               Some (if closed (events (client s))
                     then panic (s\<lparr>client := (client s)\<lparr>logger := logger (client s) @
                            [newLogEntry LogLevelDebug ''Event has received.''
                               [(''raw'', LString chunk)],
                             decoded_entry event]\<rparr>\<rparr>)
                     else if length (buf (events (client s))) < cap (events (client s))
                     then s\<lparr>client := (client s)\<lparr>logger := logger (client s) @
                            [newLogEntry LogLevelDebug ''Event has received.''
                               [(''raw'', LString chunk)],
                             decoded_entry event],
                            events := (events (client s))
                              \<lparr>buf := buf (events (client s)) @ [event]\<rparr>\<rparr>\<rparr>
                     else s\<lparr>client := (client s)\<lparr>logger := logger (client s) @
                            [newLogEntry LogLevelDebug ''Event has received.''
                               [(''raw'', LString chunk)],
                             decoded_entry event]\<rparr>,
                            readEvents_pc := ReaderSending event\<rparr>)) \<and>
         (\<forall>err. (last chunk = ETX x \<or> last chunk = ETB x) \<and>
             decodeEvent x chunk = Inl err \<longrightarrow>
             step x (ReaderIter (ReadOk chunk)) s =
               Some (s\<lparr>client := (client s)\<lparr>logger := logger (client s) @
                      [newLogEntry LogLevelDebug ''Event has received.''
                         [(''raw'', LString chunk)],
                       newLogEntry LogLevelError ''Error while decoding an event!''
                         [(''error'', LError err)]]\<rparr>\<rparr>)) \<and>
         (last chunk \<noteq> ETX x \<and> last chunk \<noteq> ETB x \<longrightarrow>
            (\<forall>next_chunk.
               run x [ReaderIter (ReadOk chunk), ReaderIter (ReadOk next_chunk)] s =
               run x [ReaderIter (ReadOk next_chunk)] s))"
proof -
  let ?c = "client s"
  let ?received = "newLogEntry LogLevelDebug ''Event has received.'' [(''raw'', LString chunk)]"
  have st: "step x (ReaderIter (ReadOk chunk)) s =
              Some (reader_moves (readEvents_chunk x chunk ?c) s)"
    using assms by (simp add: readEvents_iter_def)
  have discard: "step x (ReaderIter (ReadOk chunk)) s = Some s"
    if "last chunk \<noteq> ETX x \<and> last chunk \<noteq> ETB x"
    using that assms(1,3) unfolding st
    by (simp add: readEvents_chunk_discarded reader_moves_simps)
  have ok: "step x (ReaderIter (ReadOk chunk)) s =
               Some (if closed (events ?c)
                     then panic (s\<lparr>client := ?c\<lparr>logger := logger ?c @
                            [?received, decoded_entry event]\<rparr>\<rparr>)
                     else if length (buf (events ?c)) < cap (events ?c)
                     then s\<lparr>client := ?c\<lparr>logger := logger ?c @
                            [?received, decoded_entry event],
                            events := (events ?c)\<lparr>buf := buf (events ?c) @ [event]\<rparr>\<rparr>\<rparr>
                     else s\<lparr>client := ?c\<lparr>logger := logger ?c @
                            [?received, decoded_entry event]\<rparr>,
                            readEvents_pc := ReaderSending event\<rparr>)"
    if t: "last chunk = ETX x \<or> last chunk = ETB x" and d: "decodeEvent x chunk = Inr event"
    for event
  proof (cases "closed (events ?c)")
    case True
    then show ?thesis unfolding st
      by (simp add: readEvents_chunk_decode_closed[OF assms(3) t d] reader_moves_simps)
  next
    case False
    show ?thesis
    proof (cases "length (buf (events ?c)) < cap (events ?c)")
      case True
      with False assms(1) show ?thesis unfolding st
        by (simp add: readEvents_chunk_decode_ok[OF assms(3) t d] reader_moves_simps)
    next
      case full: False
      with False show ?thesis unfolding st
        by (simp add: readEvents_chunk_decode_full[OF assms(3) t d] reader_moves_simps)
    qed
  qed
  have bad: "step x (ReaderIter (ReadOk chunk)) s =
               Some (s\<lparr>client := ?c\<lparr>logger := logger ?c @
                      [?received,
                       newLogEntry LogLevelError ''Error while decoding an event!''
                         [(''error'', LError err)]]\<rparr>\<rparr>)"
    if t: "last chunk = ETX x \<or> last chunk = ETB x" and d: "decodeEvent x chunk = Inl err"
    for err
    using assms(1) unfolding st
    by (simp add: readEvents_chunk_decode_fails[OF assms(3) t d] reader_moves_simps)
  have changed: "step x (ReaderIter (ReadOk chunk)) s \<noteq> Some s"
    if t: "last chunk = ETX x \<or> last chunk = ETB x"
  proof (cases "decodeEvent x chunk")
    case (Inl err)
    have l: "logger c' \<noteq> logger ?c \<Longrightarrow> c' \<noteq> ?c" for c'
      by auto
    have "client (s\<lparr>client := ?c\<lparr>logger := logger ?c @
                      [?received,
                       newLogEntry LogLevelError ''Error while decoding an event!''
                         [(''error'', LError err)]]\<rparr>\<rparr>) \<noteq> ?c"
      by (intro l) simp
    from system_client_neq[OF this] show ?thesis
      unfolding bad[OF t Inl] by simp
  next
    case (Inr event)
    have l: "logger c' \<noteq> logger ?c \<Longrightarrow> c' \<noteq> ?c" for c'
      by auto
    have "client t \<noteq> ?c"
      if "t = (if closed (events ?c)
                     then panic (s\<lparr>client := ?c\<lparr>logger := logger ?c @
                            [?received, decoded_entry event]\<rparr>\<rparr>)
                     else if length (buf (events ?c)) < cap (events ?c)
                     then s\<lparr>client := ?c\<lparr>logger := logger ?c @
                            [?received, decoded_entry event],
                            events := (events ?c)\<lparr>buf := buf (events ?c) @ [event]\<rparr>\<rparr>\<rparr>
                     else s\<lparr>client := ?c\<lparr>logger := logger ?c @
                            [?received, decoded_entry event]\<rparr>,
                            readEvents_pc := ReaderSending event\<rparr>)" for t
      unfolding that by (intro l) (simp add: panic_def)
    from system_client_neq[OF this] show ?thesis
      unfolding ok[OF t Inr] by simp
  qed
  have iff: "(step x (ReaderIter (ReadOk chunk)) s = Some s) =
            (last chunk \<noteq> ETX x \<and> last chunk \<noteq> ETB x)"
    using discard changed by blast
  have again: "run x [ReaderIter (ReadOk chunk), ReaderIter (ReadOk next_chunk)] s =
               run x [ReaderIter (ReadOk next_chunk)] s"
    if "last chunk \<noteq> ETX x \<and> last chunk \<noteq> ETB x" for next_chunk
    using discard[OF that] by (simp del: step.simps)
  show ?thesis
    using iff ok bad again by blast
qed

theorem frame_complete_iff_terminator_witness:
  "step sample_externals (ReaderIter (ReadOk ''NAGT'')) (NewClient_begin None None sample_options) =
     Some (NewClient_begin None None sample_options) \<and>
   run sample_externals
     [ReaderIter (ReadOk ''NAGT''), ReaderIter (ReadOk (''START'' @ [CHR 0x03]))]
     (NewClient_begin None None sample_options) =
   run sample_externals [ReaderIter (ReadOk (''START'' @ [CHR 0x03]))]
     (NewClient_begin None None sample_options) \<and>
   step sample_externals (ReaderIter (ReadOk (''NAGTSTART'' @ [CHR 0x17])))
     (NewClient_begin None None sample_options) =
   Some ((NewClient_begin None None sample_options)
     \<lparr>client := (client (NewClient_begin None None sample_options))
        \<lparr>logger :=
           [newLogEntry LogLevelDebug ''Event has received.''
              [(''raw'', LString (''NAGTSTART'' @ [CHR 0x17]))],
            decoded_entry (sample_event ''AGTSTART'' EventTypeNotification 0)],
         events := \<lparr>buf = [sample_event ''AGTSTART'' EventTypeNotification 0], cap = 128,
                     closed = False\<rparr>\<rparr>\<rparr>) \<and>
   step sample_externals (ReaderIter (ReadOk (''?garbled'' @ [CHR 0x03])))
     (NewClient_begin None None sample_options) =
   Some ((NewClient_begin None None sample_options)
     \<lparr>client := (client (NewClient_begin None None sample_options))
        \<lparr>logger :=
           [newLogEntry LogLevelDebug ''Event has received.''
              [(''raw'', LString (''?garbled'' @ [CHR 0x03]))],
            newLogEntry LogLevelError ''Error while decoding an event!''
              [(''error'', LError (ErrOther ''unknown event type''))]]\<rparr>\<rparr>)"
proof -
  let ?x = sample_externals
  let ?s = "NewClient_begin None None sample_options"
  let ?hello = "''NAGTSTART'' @ [CHR 0x17]"
  let ?bad = "''?garbled'' @ [CHR 0x03]"
  have h: "readEvents_pc ?s = ReaderLoop" "\<not> conn_closed (client ?s)"
    by (simp_all add: NewClient_begin_def new_Client_def)
  have a: "''NAGT'' \<noteq> []" "length ''NAGT'' \<le> 4096"
    by simp_all
  have b: "?hello \<noteq> []" "length ?hello \<le> 4096"
    by simp_all
  have c: "?bad \<noteq> []" "length ?bad \<le> 4096"
    by simp_all
  have la: "last ''NAGT'' \<noteq> ETX ?x \<and> last ''NAGT'' \<noteq> ETB ?x"
    by (simp add: sample_externals_def)
  have lb: "(last ?hello = ETX ?x \<or> last ?hello = ETB ?x) \<and>
      decodeEvent ?x ?hello = Inr (sample_event ''AGTSTART'' EventTypeNotification 0)"
    by (simp add: sample_externals_def sample_decodeEvent_def)
  have lc: "(last ?bad = ETX ?x \<or> last ?bad = ETB ?x) \<and>
      decodeEvent ?x ?bad = Inl (ErrOther ''unknown event type'')"
    by (simp add: sample_externals_def sample_decodeEvent_def)
  have room: "\<not> closed (events (client ?s))"
    "length (buf (events (client ?s))) < cap (events (client ?s))"
    "logger (client ?s) = []" "buf (events (client ?s)) = []"
    "events (client ?s) = \<lparr>buf = [], cap = 128, closed = False\<rparr>"
    by (simp_all add: NewClient_begin_def new_Client_def make_chan_def)
  have p1: "step ?x (ReaderIter (ReadOk ''NAGT'')) ?s = Some ?s"
    using frame_complete_iff_terminator [OF h a, of ?x] la by blast
  have p2: "run ?x [ReaderIter (ReadOk ''NAGT''), ReaderIter (ReadOk (''START'' @ [CHR 0x03]))] ?s =
            run ?x [ReaderIter (ReadOk (''START'' @ [CHR 0x03]))] ?s"
    using frame_complete_iff_terminator [OF h a, of ?x] la by blast
  have "step ?x (ReaderIter (ReadOk ?hello)) ?s =
      Some (if closed (events (client ?s))
            then panic (?s\<lparr>client := (client ?s)\<lparr>logger := logger (client ?s) @
                   [newLogEntry LogLevelDebug ''Event has received.'' [(''raw'', LString ?hello)],
                    decoded_entry (sample_event ''AGTSTART'' EventTypeNotification 0)]\<rparr>\<rparr>)
            else if length (buf (events (client ?s))) < cap (events (client ?s))
            then ?s\<lparr>client := (client ?s)\<lparr>logger := logger (client ?s) @
                   [newLogEntry LogLevelDebug ''Event has received.'' [(''raw'', LString ?hello)],
                    decoded_entry (sample_event ''AGTSTART'' EventTypeNotification 0)],
                   events := (events (client ?s))
                     \<lparr>buf := buf (events (client ?s)) @
                        [sample_event ''AGTSTART'' EventTypeNotification 0]\<rparr>\<rparr>\<rparr>
            else ?s\<lparr>client := (client ?s)\<lparr>logger := logger (client ?s) @
                   [newLogEntry LogLevelDebug ''Event has received.'' [(''raw'', LString ?hello)],
                    decoded_entry (sample_event ''AGTSTART'' EventTypeNotification 0)]\<rparr>,
                   readEvents_pc := ReaderSending
                     (sample_event ''AGTSTART'' EventTypeNotification 0)\<rparr>)"
    using frame_complete_iff_terminator [OF h b, of ?x] lb by blast
  then have p3: "step ?x (ReaderIter (ReadOk ?hello)) ?s =
      Some (?s\<lparr>client := (client ?s)\<lparr>logger :=
                   [newLogEntry LogLevelDebug ''Event has received.'' [(''raw'', LString ?hello)],
                    decoded_entry (sample_event ''AGTSTART'' EventTypeNotification 0)],
                   events := \<lparr>buf = [sample_event ''AGTSTART'' EventTypeNotification 0],
                     cap = 128, closed = False\<rparr>\<rparr>\<rparr>)"
    using room by (simp del: step.simps)
  have "step ?x (ReaderIter (ReadOk ?bad)) ?s =
      Some (?s\<lparr>client := (client ?s)\<lparr>logger := logger (client ?s) @
                   [newLogEntry LogLevelDebug ''Event has received.'' [(''raw'', LString ?bad)],
                    newLogEntry LogLevelError ''Error while decoding an event!''
                      [(''error'', LError (ErrOther ''unknown event type''))]]\<rparr>\<rparr>)"
    using frame_complete_iff_terminator [OF h c, of ?x] lc by blast
  then have p4: "step ?x (ReaderIter (ReadOk ?bad)) ?s =
      Some (?s\<lparr>client := (client ?s)\<lparr>logger :=
                   [newLogEntry LogLevelDebug ''Event has received.'' [(''raw'', LString ?bad)],
                    newLogEntry LogLevelError ''Error while decoding an event!''
                      [(''error'', LError (ErrOther ''unknown event type''))]]\<rparr>\<rparr>)"
    using room by (simp del: step.simps)
  show ?thesis
    using p1 p2 p3 p4 by blast
qed

text \<open>
  C5. A complete record that fails to decode costs two log entries, the second being the
  decode failure, and nothing else: the reader stays in its loop, nothing is queued and
  nothing is signalled to the session loop. A malformed record followed by a well-formed
  one, with room in the queue, gives one decode-failure entry and one queued event.
\<close>

theorem decode_failure_is_skipped:
  assumes "readEvents_pc s = ReaderLoop" and "\<not> conn_closed (client s)"
    and "bad \<noteq> []" and "length bad \<le> 4096"
    and "last bad = ETX x \<or> last bad = ETB x"
    and "decodeEvent x bad = Inl err"
  shows "step x (ReaderIter (ReadOk bad)) s =
           Some (s\<lparr>client := (client s)\<lparr>logger := logger (client s) @
               [newLogEntry LogLevelDebug ''Event has received.'' [(''raw'', LString bad)],
                newLogEntry LogLevelError ''Error while decoding an event!''
                  [(''error'', LError err)]]\<rparr>\<rparr>) \<and>
         (good \<noteq> [] \<and> length good \<le> 4096 \<and> (last good = ETX x \<or> last good = ETB x) \<and>
          decodeEvent x good = Inr event \<and>
          \<not> closed (events (client s)) \<and>
          length (buf (events (client s))) < cap (events (client s)) \<longrightarrow>
          run x [ReaderIter (ReadOk bad), ReaderIter (ReadOk good)] s =
            Some (s\<lparr>client := (client s)\<lparr>logger := logger (client s) @
               [newLogEntry LogLevelDebug ''Event has received.'' [(''raw'', LString bad)],
                newLogEntry LogLevelError ''Error while decoding an event!''
                  [(''error'', LError err)],
                newLogEntry LogLevelDebug ''Event has received.'' [(''raw'', LString good)],
                decoded_entry event],
               events := (events (client s))\<lparr>buf := buf (events (client s)) @ [event]\<rparr>\<rparr>\<rparr>))"
proof -
  let ?c1 = "(client s)\<lparr>logger := logger (client s) @
               [newLogEntry LogLevelDebug ''Event has received.'' [(''raw'', LString bad)],
                newLogEntry LogLevelError ''Error while decoding an event!''
                  [(''error'', LError err)]]\<rparr>"
  have first: "step x (ReaderIter (ReadOk bad)) s = Some (s\<lparr>client := ?c1\<rparr>)"
    using assms
    by (simp add: readEvents_iter_def readEvents_chunk_decode_fails reader_moves_simps)
  have second: "step x (ReaderIter (ReadOk good)) (s\<lparr>client := ?c1\<rparr>) =
      Some (s\<lparr>client := (client s)\<lparr>logger := logger (client s) @
               [newLogEntry LogLevelDebug ''Event has received.'' [(''raw'', LString bad)],
                newLogEntry LogLevelError ''Error while decoding an event!''
                  [(''error'', LError err)],
                newLogEntry LogLevelDebug ''Event has received.'' [(''raw'', LString good)],
                decoded_entry event],
               events := (events (client s))\<lparr>buf := buf (events (client s)) @ [event]\<rparr>\<rparr>\<rparr>)"
    if "good \<noteq> []" "length good \<le> 4096" "last good = ETX x \<or> last good = ETB x"
       "decodeEvent x good = Inr event" "\<not> closed (events (client s))"
       "length (buf (events (client s))) < cap (events (client s))"
    using that assms(1,2)
    by (simp add: readEvents_iter_def readEvents_chunk_decode_ok reader_moves_simps)
  show ?thesis
    using first second by simp
qed

theorem decode_failure_is_skipped_witness:
  "run sample_externals
     [ReaderIter (ReadOk (''?garbled'' @ [CHR 0x03])),
      ReaderIter (ReadOk (''NAGTSTART'' @ [CHR 0x03]))]
     (NewClient_begin None None sample_options) =
   Some ((NewClient_begin None None sample_options)
     \<lparr>client := (client (NewClient_begin None None sample_options))
        \<lparr>logger :=
           [newLogEntry LogLevelDebug ''Event has received.''
              [(''raw'', LString (''?garbled'' @ [CHR 0x03]))],
            newLogEntry LogLevelError ''Error while decoding an event!''
              [(''error'', LError (ErrOther ''unknown event type''))],
            newLogEntry LogLevelDebug ''Event has received.''
              [(''raw'', LString (''NAGTSTART'' @ [CHR 0x03]))],
            decoded_entry (sample_event ''AGTSTART'' EventTypeNotification 0)],
         events := \<lparr>buf = [sample_event ''AGTSTART'' EventTypeNotification 0], cap = 128,
                     closed = False\<rparr>\<rparr>\<rparr>)"
proof -
  let ?x = sample_externals
  let ?s = "NewClient_begin None None sample_options"
  let ?bad = "''?garbled'' @ [CHR 0x03]"
  let ?good = "''NAGTSTART'' @ [CHR 0x03]"
  have h: "readEvents_pc ?s = ReaderLoop" "\<not> conn_closed (client ?s)" "?bad \<noteq> []"
    "length ?bad \<le> 4096" "last ?bad = ETX ?x \<or> last ?bad = ETB ?x"
    "decodeEvent ?x ?bad = Inl (ErrOther ''unknown event type'')"
    by (simp_all add: NewClient_begin_def new_Client_def sample_externals_def
        sample_decodeEvent_def)
  have g: "?good \<noteq> [] \<and> length ?good \<le> 4096 \<and>
      (last ?good = ETX ?x \<or> last ?good = ETB ?x) \<and>
      decodeEvent ?x ?good = Inr (sample_event ''AGTSTART'' EventTypeNotification 0) \<and>
      \<not> closed (events (client ?s)) \<and>
      length (buf (events (client ?s))) < cap (events (client ?s))"
    by (simp add: NewClient_begin_def new_Client_def make_chan_def sample_externals_def
        sample_decodeEvent_def)
  show ?thesis
    using decode_failure_is_skipped [OF h, of ?good
        "sample_event ''AGTSTART'' EventTypeNotification 0"] g
    by (simp del: run.simps step.simps add: NewClient_begin_def new_Client_def make_chan_def)
qed

section \<open>Invariants of the session loop\<close>

lemma run_append:
  "run x (xs @ ys) s = (case run x xs s of None \<Rightarrow> None | Some s' \<Rightarrow> run x ys s')"
  by (induction xs arbitrary: s) (auto split: option.splits)

lemma run_append_Some: "run x xs s = Some s1 \<Longrightarrow> run x (xs @ ys) s = run x ys s1"
  by (simp add: run_append)

lemma run_single: "run x [l] s = step x l s"
  by (simp split: option.splits)

lemma loop_inv_cong:
  assumes "state c' = state c" "conn_closed c' = conn_closed c"
    "closed (notification c') = closed (notification c)" "closed (events c') = closed (events c)"
  shows "loop_inv pc c' = loop_inv pc c"
  using assms by (cases pc) (simp_all add: channels_open_def)

lemma loop_inv_heap: "loop_inv pc (c\<lparr>heap := h\<rparr>) = loop_inv pc c"
  by (rule loop_inv_cong) simp_all

lemma inv_state: "inv s \<Longrightarrow> state (client s) = ConnOK \<or> state (client s) = ConnClosed"
  by (cases "Start_pc s") (auto simp: inv_def)

lemma inv_panic: "inv s \<Longrightarrow> inv (panic s)"
  using inv_state[of s] by (simp add: inv_def panic_def)

lemma inv_client:
  assumes "inv s" and "state c' = state (client s)" and "conn_closed c' = conn_closed (client s)"
    and "closed (notification c') = closed (notification (client s))"
    and "closed (events c') = closed (events (client s))"
  shows "inv (s\<lparr>client := c'\<rparr>)"
  using assms(1) loop_inv_cong[OF assms(2-5), of "Start_pc s"] by (simp add: inv_def)

lemma events_send_frame:
  assumes "events_send e c = (c', pc')"
  shows "state c' = state c \<and> requests c' = requests c \<and> conn_closed c' = conn_closed c \<and>
         notification c' = notification c \<and> closed (events c') = closed (events c) \<and>
         shutdown c' = shutdown c \<and> logger c' = logger c \<and> opts c' = opts c \<and>
         heap c' = heap c"
  using assms by (auto simp: events_send_def chan_send_def split: if_splits)

lemma readEvents_chunk_frame:
  assumes "readEvents_chunk x chunk c = (c', pc')"
  shows "state c' = state c \<and> requests c' = requests c \<and> conn_closed c' = conn_closed c \<and>
         notification c' = notification c \<and> closed (events c') = closed (events c) \<and>
         shutdown c' = shutdown c \<and> opts c' = opts c \<and> heap c' = heap c"
proof (cases "chunk \<noteq> [] \<and> (last chunk = ETX x \<or> last chunk = ETB x)")
  case False
  then show ?thesis using assms by (auto simp: readEvents_chunk_def split: if_splits)
next
  case True
  show ?thesis
  proof (cases "decodeEvent x chunk")
    case (Inl err)
    then show ?thesis using assms True by (auto simp: readEvents_chunk_def logger_log_def)
  next
    case (Inr event)
    then have "events_send event (logger_log (decoded_entry event)
        (logger_log (newLogEntry LogLevelDebug ''Event has received.''
                     [(''raw'', LString chunk)]) c)) = (c', pc')"
      using assms True by (auto simp: readEvents_chunk_def)
    from events_send_frame[OF this] show ?thesis by (simp add: logger_log_def)
  qed
qed

lemma readEvents_return_frame:
  assumes "readEvents_return err c = (c', pc')"
  shows "state c' = state c \<and> requests c' = requests c \<and> conn_closed c' = conn_closed c \<and>
         notification c' = notification c \<and> events c' = events c \<and>
         shutdown c' = shutdown c + 1 \<and> opts c' = opts c \<and> heap c' = heap c \<and>
         pc' = ReaderReturned err"
  using assms by (auto simp: readEvents_return_def logger_log_def Let_def split: if_splits)

lemma readEvents_iter_frame:
  assumes "readEvents_iter x outcome c = Some (c', pc')"
  shows "state c' = state c \<and> requests c' = requests c \<and> conn_closed c' = conn_closed c \<and>
         notification c' = notification c \<and> closed (events c') = closed (events c) \<and>
         opts c' = opts c \<and> heap c' = heap c"
proof (cases outcome)
  case (SetDeadlineFails err)
  then obtain c1 where "readEvents_return err (logger_log c1 c) = (c', pc')"
    using assms by (auto simp: readEvents_iter_def split: if_splits)
  from readEvents_return_frame[OF this] show ?thesis by (simp add: logger_log_def)
next
  case (ReadFails chunk err)
  then have "readEvents_return err c = (c', pc')"
    using assms by (auto simp: readEvents_iter_def)
  from readEvents_return_frame[OF this] show ?thesis by simp
next
  case (ReadOk chunk)
  then have "readEvents_chunk x chunk c = (c', pc')"
    using assms by (auto simp: readEvents_iter_def split: if_splits)
  from readEvents_chunk_frame[OF this] show ?thesis by simp
qed

text \<open>
  What a step of the reader goroutine is: the client and the control point it moves to,
  with what it leaves alone.
\<close>

lemma reader_step:
  assumes "step x l s = Some s'" and "l = ReaderIter outcome \<or> l = ReaderSend"
  shows "\<exists>c' pc'. s' = reader_moves (c', pc') s \<and>
           state c' = state (client s) \<and> requests c' = requests (client s) \<and>
           conn_closed c' = conn_closed (client s) \<and>
           notification c' = notification (client s) \<and>
           closed (events c') = closed (events (client s)) \<and> heap c' = heap (client s)"
proof (cases "l = ReaderSend")
  case True
  with assms(1) obtain e where s': "s' = reader_moves (events_send e (client s)) s"
    by (auto split: reader_pc.splits send_result.splits)
  obtain c' pc' where r: "events_send e (client s) = (c', pc')"
    by (cases "events_send e (client s)")
  from events_send_frame[OF r] s' r show ?thesis by auto
next
  case False
  with assms obtain r where "readEvents_iter x outcome (client s) = Some r"
    and s': "s' = reader_moves r s"
    by (auto split: if_splits option.splits)
  then obtain c' pc' where r: "readEvents_iter x outcome (client s) = Some (c', pc')"
    and rr: "r = (c', pc')"
    by (cases r) auto
  from readEvents_iter_frame[OF r] s' rr show ?thesis by auto
qed

lemma inv_reader:
  assumes "step x l s = Some s'" and "l = ReaderIter outcome \<or> l = ReaderSend" and "inv s"
  shows "inv s'"
proof -
  from reader_step[OF assms(1,2)] obtain c' pc' where s': "s' = reader_moves (c', pc') s"
    and f: "state c' = state (client s)" "conn_closed c' = conn_closed (client s)"
      "closed (notification c') = closed (notification (client s))"
      "closed (events c') = closed (events (client s))"
    by auto
  have i: "inv (s\<lparr>client := c'\<rparr>)" using inv_client[OF assms(3) f] .
  show ?thesis
  proof (cases "pc' = ReaderPanicked")
    case True
    then show ?thesis using inv_panic[OF i] unfolding s' by (simp add: reader_moves_def)
  next
    case False
    then show ?thesis using i unfolding s' by (simp add: reader_moves_def inv_def)
  qed
qed

lemma NewClient_handshake_frame:
  assumes "NewClient_handshake x c = Some (c', r)"
  shows "state c' = state c \<and> requests c' = requests c \<and> conn_closed c' = conn_closed c \<and>
         notification c' = notification c \<and> closed (events c') = closed (events c) \<and>
         shutdown c' = shutdown c \<and> heap c' = heap c"
  using assms
  by (auto simp: NewClient_handshake_def chan_recv_def logger_log_def split: list.splits if_splits)

lemma inv_handshake:
  assumes "step x Handshake s = Some s'" and "inv s"
  shows "inv s'"
proof -
  from assms(1) obtain c' r where r: "NewClient_handshake x (client s) = Some (c', r)"
    and s': "s' = s\<lparr>client := c', NewClient_pc := NCReturned r\<rparr>"
    by (auto split: if_splits option.splits)
  from NewClient_handshake_frame[OF r] have "inv (s\<lparr>client := c'\<rparr>)"
    by (intro inv_client[OF assms(2)]) simp_all
  then show ?thesis unfolding s' by (simp add: inv_def)
qed

lemma inv_start_call:
  assumes "step x StartCall s = Some s'" and "inv s"
  shows "inv s'"
  using assms by (auto simp: inv_def split: if_splits)

lemma inv_notification_send:
  assumes "notification_send e s = Some s'" and "inv s"
    and "Start_pc s = LoopSelect \<or> Start_pc s = LoopSendingNotification e'"
  shows "inv s'"
  using assms
  by (auto simp: notification_send_def inv_def chan_send_def channels_open_def panic_def
      split: if_splits)

lemma inv_eventChan_send:
  assumes "eventChan_send a e s = Some s'" and "inv s"
    and "Start_pc s = LoopSelect \<or> Start_pc s = LoopSendingEvent a' e'"
  shows "inv s'"
  using assms
  by (auto simp: eventChan_send_def inv_def channels_open_def panic_def
      split: option.splits send_result.splits)

lemma inv_doneChan_send:
  assumes "doneChan_send visited i a s = Some s'" and "inv s"
    and "Start_pc s = LoopDraining visited' \<or> Start_pc s = LoopSendingDone visited' i' a'"
  shows "inv s'"
  using assms
  by (auto simp: doneChan_send_def inv_def panic_def split: option.splits send_result.splits)

lemma inv_recv_event:
  assumes "step x LoopRecvEvent s = Some s'" and "inv s"
  shows "inv s'"
proof -
  from assms(1) have pc: "Start_pc s = LoopSelect"
    by (auto simp: Start_recv_event_def split: if_splits)
  from assms(1) pc obtain e q where b: "buf (events (client s)) = e # q"
    and ev: "Start_event e (s\<lparr>client := (client s)\<lparr>events := (events (client s))\<lparr>buf := q\<rparr>\<rparr>\<rparr>) = Some s'"
    by (auto simp: Start_recv_event_def chan_recv_def split: if_splits list.splits)
  let ?s1 = "s\<lparr>client := (client s)\<lparr>events := (events (client s))\<lparr>buf := q\<rparr>\<rparr>\<rparr>"
  have i1: "inv ?s1" using assms(2) by (intro inv_client) simp_all
  have pc1: "Start_pc ?s1 = LoopSelect" using pc by simp
  show ?thesis
  proof (cases "Type e = EventTypeNotification")
    case True
    then have "notification_send e ?s1 = Some s'" using ev by (simp add: Start_event_def)
    from inv_notification_send[OF this i1] pc1 show ?thesis by blast
  next
    case False
    let ?s2 = "?s1\<lparr>Start_ops := Start_ops ?s1 @ [OpLookup (InvokeID e)]\<rparr>"
    have i2: "inv ?s2" using i1 by (simp add: inv_def)
    have pc2: "Start_pc ?s2 = LoopSelect" using pc by simp
    show ?thesis
    proof (cases "requests (client s) (InvokeID e)")
      case None
      with False ev have "s' = ?s2" by (simp add: Start_event_def)
      with i2 show ?thesis by simp
    next
      case (Some a)
      with False ev have "eventChan_send a e ?s2 = Some s'" by (simp add: Start_event_def)
      from inv_eventChan_send[OF this i2] pc2 show ?thesis by blast
    qed
  qed
qed

lemma inv_send_notification:
  assumes "step x LoopSendNotification s = Some s'" and "inv s"
  shows "inv s'"
proof -
  from assms(1) obtain e where pc: "Start_pc s = LoopSendingNotification e" and
    n: "notification_send e s = Some s'"
    by (auto simp: Start_send_notification_def split: loop_pc.splits send_result.splits)
  from inv_notification_send[OF n assms(2)] pc show ?thesis by blast
qed

lemma inv_send_event:
  assumes "step x LoopSendEvent s = Some s'" and "inv s"
  shows "inv s'"
proof -
  from assms(1) obtain a e where pc: "Start_pc s = LoopSendingEvent a e" and
    n: "eventChan_send a e s = Some s'"
    by (auto simp: Start_send_event_def
        split: loop_pc.splits option.splits send_result.splits)
  from inv_eventChan_send[OF n assms(2)] pc show ?thesis by blast
qed

lemma inv_recv_shutdown:
  assumes "step x LoopRecvShutdown s = Some s'" and "inv s"
  shows "inv s'"
  using assms by (auto simp: Start_recv_shutdown_def inv_def channels_open_def split: if_splits)

lemma inv_next:
  assumes "step x LoopNext s = Some s'" and "inv s"
  shows "inv s'"
  using assms
  by (cases "Start_pc s")
    (auto simp: Start_next_def inv_def channels_open_def chan_close_def panic_def
      split: if_splits)

lemma inv_drain:
  assumes "step x (LoopDrain i) s = Some s'" and "inv s"
  shows "inv s'"
proof -
  from assms(1) obtain visited a where pc: "Start_pc s = LoopDraining visited"
    and n: "doneChan_send visited i a s = Some s'"
    by (auto simp: Start_drain_def split: loop_pc.splits option.splits if_splits)
  from inv_doneChan_send[OF n assms(2)] pc show ?thesis by blast
qed

lemma inv_send_done:
  assumes "step x LoopSendDone s = Some s'" and "inv s"
  shows "inv s'"
proof -
  from assms(1) obtain visited i a where pc: "Start_pc s = LoopSendingDone visited i a"
    and n: "doneChan_send visited i a s = Some s'"
    by (auto simp: Start_send_done_def
        split: loop_pc.splits option.splits send_result.splits)
  from inv_doneChan_send[OF n assms(2)] pc show ?thesis by blast
qed

lemma inv_stop:
  assumes "step x StopCall s = Some s'" and "inv s"
  shows "inv s'"
proof -
  from assms(1) have s': "s' = s\<lparr>client := Stop (client s)\<rparr>" by (auto split: if_splits)
  show ?thesis unfolding s' by (intro inv_client[OF assms(2)]) (simp_all add: Stop_def)
qed

lemma inv_consume:
  assumes "step x Consume s = Some s'" and "inv s"
  shows "inv s'"
proof -
  from assms(1) obtain e q where b: "buf (notification (client s)) = e # q"
    and s': "s' = s\<lparr>client := (client s)\<lparr>notification := (notification (client s))\<lparr>buf := q\<rparr>\<rparr>,
                   received := received s @ [e]\<rparr>"
    by (auto simp: chan_recv_def split: list.splits if_splits)
  have "inv (s\<lparr>client := (client s)\<lparr>notification := (notification (client s))\<lparr>buf := q\<rparr>\<rparr>\<rparr>)"
    by (intro inv_client[OF assms(2)]) simp_all
  then show ?thesis unfolding s' by (simp add: inv_def)
qed

lemma inv_register:
  assumes "step x (Register i) s = Some s'" and "inv s"
  shows "inv s'"
proof (cases "state (client s) = ConnClosed")
  case True
  then show ?thesis using assms by (auto simp: register_def split: if_splits)
next
  case False
  then have s': "s' = s\<lparr>client := (client s)
      \<lparr>requests := (requests (client s))(i \<mapsto> length (heap (client s))),
       heap := heap (client s) @ [\<lparr>eventChan = make_chan 0, doneChan = make_chan 0\<rparr>]\<rparr>\<rparr>"
    using assms(1) by (auto simp: register_def split: if_splits)
  show ?thesis unfolding s' by (intro inv_client[OF assms(2)]) simp_all
qed

lemma inv_unregister:
  assumes "step x (Unregister i) s = Some s'" and "inv s"
  shows "inv s'"
proof -
  from assms(1) have s': "s' = s\<lparr>client := unregister i (client s)\<rparr>" by (auto split: if_splits)
  show ?thesis unfolding s' by (intro inv_client[OF assms(2)]) (simp_all add: unregister_def)
qed

lemma inv_await_event:
  assumes "step x (AwaitEvent a) s = Some s'" and "inv s"
  shows "inv s'"
  using assms
  by (auto simp: await_event_def inv_def channels_open_def loop_inv_heap
      split: if_splits option.splits recv_result.splits loop_pc.splits)

lemma inv_await_done:
  assumes "step x (AwaitDone a) s = Some s'" and "inv s"
  shows "inv s'"
  using assms
  by (auto simp: await_done_def inv_def channels_open_def loop_inv_heap
      split: if_splits option.splits recv_result.splits loop_pc.splits)

lemma inv_step:
  assumes "step x l s = Some s'" and "inv s"
  shows "inv s'"
  using assms
  by (cases l)
    (blast intro: inv_reader inv_handshake inv_start_call inv_recv_event
      inv_send_notification inv_send_event inv_recv_shutdown inv_next inv_drain inv_send_done
      inv_stop inv_consume inv_register inv_unregister inv_await_event inv_await_done)+

lemma inv_run:
  assumes "run x ls s = Some s'" and "inv s"
  shows "inv s'"
  using assms
proof (induction ls arbitrary: s)
  case Nil
  then show ?case by simp
next
  case (Cons l ls)
  then show ?case by (auto split: option.splits dest: inv_step)
qed

lemma inv_begin: "inv (NewClient_begin ctx_err dial_err options)"
  by (simp add: inv_def NewClient_begin_def new_Client_def make_chan_def channels_open_def
      split: option.splits)

lemmas model_defs =
  readEvents_iter_def readEvents_chunk_def readEvents_return_def events_send_def
  reader_moves_def panic_def deref_def
  NewClient_begin_def NewClient_handshake_def new_Client_def make_chan_def
  chan_send_def chan_recv_def chan_close_def logger_log_def
  notification_send_def eventChan_send_def doneChan_send_def
  Start_event_def Start_recv_event_def Start_send_notification_def Start_send_event_def
  Start_recv_shutdown_def Start_next_def Start_drain_def Start_send_done_def
  register_def unregister_def await_event_def await_done_def Stop_def
  sample_externals_def sample_decodeEvent_def sample_event_def sample_options_def
  ConnOK_def ConnClosed_def

section \<open>The connection state\<close>

lemma client_reader_moves: "client (reader_moves (c, pc) s) = c"
  by (simp add: reader_moves_def panic_def)

lemma client_panic: "client (panic s) = client s"
  by (simp add: panic_def)

lemma step_state:
  assumes "step x l s = Some s'"
  shows "state (client s') = state (client s) \<or>
         (l = LoopNext \<and> Start_pc s = LoopShuttingDown \<and> state (client s') = ConnClosed)"
proof (cases l)
  case (ReaderIter outcome)
  with reader_step[OF assms, of outcome] show ?thesis by (auto simp: client_reader_moves)
next
  case ReaderSend
  with reader_step[OF assms] show ?thesis by (auto simp: client_reader_moves)
next
  case Handshake
  with assms obtain c' r where "NewClient_handshake x (client s) = Some (c', r)"
    and "s' = s\<lparr>client := c', NewClient_pc := NCReturned r\<rparr>"
    by (auto split: if_splits option.splits)
  with NewClient_handshake_frame[of x "client s" c' r] show ?thesis by simp
next
  case LoopRecvEvent
  with assms show ?thesis
    by (auto simp: Start_recv_event_def Start_event_def notification_send_def
        eventChan_send_def chan_recv_def client_panic
        split: if_splits list.splits send_result.splits option.splits)
next
  case LoopSendNotification
  with assms show ?thesis
    by (auto simp: Start_send_notification_def notification_send_def client_panic
        split: loop_pc.splits send_result.splits)
next
  case LoopSendEvent
  with assms show ?thesis
    by (auto simp: Start_send_event_def eventChan_send_def client_panic
        split: loop_pc.splits option.splits send_result.splits)
next
  case LoopNext
  with assms show ?thesis
    by (auto simp: Start_next_def chan_close_def client_panic split: loop_pc.splits if_splits)
next
  case (LoopDrain i)
  with assms show ?thesis
    by (auto simp: Start_drain_def doneChan_send_def client_panic
        split: loop_pc.splits option.splits if_splits send_result.splits)
next
  case LoopSendDone
  with assms show ?thesis
    by (auto simp: Start_send_done_def doneChan_send_def client_panic
        split: loop_pc.splits option.splits send_result.splits)
next
  case Consume
  with assms show ?thesis
    by (auto simp: chan_recv_def split: list.splits if_splits)
next
  case (AwaitEvent a)
  with assms show ?thesis
    by (auto simp: await_event_def
        split: if_splits option.splits recv_result.splits loop_pc.splits)
next
  case (AwaitDone a)
  with assms show ?thesis
    by (auto simp: await_done_def
        split: if_splits option.splits recv_result.splits loop_pc.splits)
qed (use assms in \<open>auto simp: Start_recv_shutdown_def Stop_def register_def unregister_def
       split: if_splits\<close>)

lemma step_requests_dom:
  assumes "step x l s = Some s'" and "state (client s) = ConnClosed"
  shows "dom (requests (client s')) \<subseteq> dom (requests (client s))"
proof (cases l)
  case (ReaderIter outcome)
  with reader_step[OF assms(1), of outcome] show ?thesis by (auto simp: client_reader_moves)
next
  case ReaderSend
  with reader_step[OF assms(1)] show ?thesis by (auto simp: client_reader_moves)
next
  case Handshake
  with assms obtain c' r where "NewClient_handshake x (client s) = Some (c', r)"
    and "s' = s\<lparr>client := c', NewClient_pc := NCReturned r\<rparr>"
    by (auto split: if_splits option.splits)
  with NewClient_handshake_frame[of x "client s" c' r] show ?thesis by simp
next
  case LoopRecvEvent
  with assms show ?thesis
    by (auto simp: Start_recv_event_def Start_event_def notification_send_def
        eventChan_send_def chan_recv_def client_panic
        split: if_splits list.splits send_result.splits option.splits)
next
  case LoopSendNotification
  with assms show ?thesis
    by (auto simp: Start_send_notification_def notification_send_def client_panic
        split: loop_pc.splits send_result.splits)
next
  case LoopSendEvent
  with assms show ?thesis
    by (auto simp: Start_send_event_def eventChan_send_def client_panic
        split: loop_pc.splits option.splits send_result.splits)
next
  case LoopNext
  with assms show ?thesis
    by (auto simp: Start_next_def chan_close_def client_panic split: loop_pc.splits if_splits)
next
  case (LoopDrain i)
  with assms show ?thesis
    by (auto simp: Start_drain_def doneChan_send_def client_panic
        split: loop_pc.splits option.splits if_splits send_result.splits)
next
  case LoopSendDone
  with assms show ?thesis
    by (auto simp: Start_send_done_def doneChan_send_def client_panic
        split: loop_pc.splits option.splits send_result.splits)
next
  case Consume
  with assms show ?thesis
    by (auto simp: chan_recv_def split: list.splits if_splits)
next
  case (AwaitEvent a)
  with assms show ?thesis
    by (auto simp: await_event_def
        split: if_splits option.splits recv_result.splits loop_pc.splits)
next
  case (AwaitDone a)
  with assms show ?thesis
    by (auto simp: await_done_def
        split: if_splits option.splits recv_result.splits loop_pc.splits)
qed (use assms in \<open>auto simp: Start_recv_shutdown_def Stop_def register_def unregister_def
       split: if_splits\<close>)

lemma run_closed:
  assumes "run x ls s = Some s'" and "state (client s) = ConnClosed"
  shows "state (client s') = ConnClosed \<and> dom (requests (client s')) \<subseteq> dom (requests (client s))"
  using assms
proof (induction ls arbitrary: s)
  case Nil
  then show ?case by simp
next
  case (Cons l ls)
  from Cons.prems obtain s1 where s1: "step x l s = Some s1" and r: "run x ls s1 = Some s'"
    by (auto split: option.splits)
  from step_state[OF s1] Cons.prems(2) have c1: "state (client s1) = ConnClosed" by auto
  from step_requests_dom[OF s1 Cons.prems(2)] Cons.IH[OF r c1] show ?case by blast
qed

text \<open>
  C8. In every reachable state the connection state is one of the two values \<open>ConnOK\<close> and
  \<open>ConnClosed\<close>. The only step that changes it is the store of the session loop in its
  shutdown case, from \<open>ConnOK\<close> to \<open>ConnClosed\<close>. Once it is \<open>ConnClosed\<close> it stays so,
  every attempt to register a command fails at once with \<open>ErrConnectionClosed\<close>, and the
  request table gets no new entry.
\<close>

theorem connection_state_one_way:
  assumes "run x ls (NewClient_begin ctx_err dial_err options) = Some s"
  shows "(state (client s) = ConnOK \<or> state (client s) = ConnClosed) \<and>
         (\<forall>l s'. step x l s = Some s' \<and> state (client s') \<noteq> state (client s) \<longrightarrow>
            l = LoopNext \<and> Start_pc s = LoopShuttingDown \<and>
            state (client s) = ConnOK \<and> state (client s') = ConnClosed) \<and>
         (state (client s) = ConnClosed \<longrightarrow>
            (\<forall>i. register i (client s) = Inl ErrConnectionClosed) \<and>
            (\<forall>ls' s'. run x ls' s = Some s' \<longrightarrow>
               state (client s') = ConnClosed \<and>
               dom (requests (client s')) \<subseteq> dom (requests (client s))))"
proof -
  have i: "inv s" using inv_run[OF assms inv_begin] .
  have a: "state (client s) = ConnOK \<or> state (client s) = ConnClosed"
    using inv_state[OF i] .
  have b: "l = LoopNext \<and> Start_pc s = LoopShuttingDown \<and>
            state (client s) = ConnOK \<and> state (client s') = ConnClosed"
    if "step x l s = Some s'" "state (client s') \<noteq> state (client s)" for l s'
    using step_state[OF that(1)] that(2) i by (auto simp: inv_def)
  have c: "register i (client s) = Inl ErrConnectionClosed" if "state (client s) = ConnClosed" for i
    using that by (simp add: register_def)
  show ?thesis using a b c run_closed by blast
qed

theorem connection_state_one_way_witness:
  "(case run sample_externals sample_stop_run (NewClient_begin None None sample_options) of
      None \<Rightarrow> False
    | Some s \<Rightarrow>
        state (client s) = ConnClosed \<and>
        register 5 (client s) = Inl ErrConnectionClosed \<and>
        (case run sample_externals [Register 5, Unregister 7] s of
           None \<Rightarrow> False
         | Some s' \<Rightarrow>
             state (client s') = ConnClosed \<and> requests (client s') 5 = None \<and>
             dom (requests (client s')) \<subseteq> dom (requests (client s)))) \<and>
   (case run sample_externals (sample_stop_prefix @ [LoopRecvShutdown])
           (NewClient_begin None None sample_options) of
      None \<Rightarrow> False
    | Some t \<Rightarrow>
        state (client t) = ConnOK \<and> Start_pc t = LoopShuttingDown \<and>
        (case step sample_externals LoopNext t of
           None \<Rightarrow> False
         | Some t' \<Rightarrow> state (client t') = ConnClosed))"
proof -
  let ?x = sample_externals
  let ?s0 = "NewClient_begin None None sample_options"
  obtain s where r: "run ?x sample_stop_run ?s0 = Some s"
    and f: "state (client s) = ConnClosed"
    by (simp add: sample_stop_run_def model_defs)
  obtain s' where o: "run ?x (sample_stop_run @ [Register 5, Unregister 7]) ?s0 = Some s'"
    and f': "requests (client s') 5 = None"
    by (simp add: sample_stop_run_def model_defs)
  have r': "run ?x [Register 5, Unregister 7] s = Some s'"
    using o unfolding run_append_Some [OF r] .
  have a: "register 5 (client s) = Inl ErrConnectionClosed"
    "state (client s') = ConnClosed"
    "dom (requests (client s')) \<subseteq> dom (requests (client s))"
    using connection_state_one_way [OF r] f r' by blast+
  obtain t where rt: "run ?x (sample_stop_prefix @ [LoopRecvShutdown]) ?s0 = Some t"
    and g: "state (client t) = ConnOK"
    by (simp add: sample_stop_prefix_def model_defs)
  obtain t' where o': "run ?x ((sample_stop_prefix @ [LoopRecvShutdown]) @ [LoopNext]) ?s0 = Some t'"
    and g': "state (client t') = ConnClosed"
    by (simp add: sample_stop_prefix_def model_defs)
  have "run ?x [LoopNext] t = Some t'"
    using o' unfolding run_append_Some [OF rt] .
  then have st: "step ?x LoopNext t = Some t'"
    by (simp split: option.splits)
  have ne: "state (client t') \<noteq> state (client t)"
    using g g' by (simp add: ConnOK_def ConnClosed_def)
  have b: "Start_pc t = LoopShuttingDown"
    using connection_state_one_way [OF rt] st ne by blast
  show ?thesis using r f r' f' a rt g st g' b by simp
qed

text \<open>
  C9. Whenever \<open>Start\<close> has returned, the value it returned is \<open>ErrConnectionClosed\<close>,
  whatever led to the shutdown.
\<close>

theorem Start_returns_ErrConnectionClosed:
  assumes "run x ls (NewClient_begin ctx_err dial_err options) = Some s"
    and "Start_pc s = LoopReturned err"
  shows "err = ErrConnectionClosed"
  using inv_run[OF assms(1) inv_begin] assms(2) by (simp add: inv_def)

theorem Start_returns_ErrConnectionClosed_witness:
  "(case run sample_externals sample_stop_run (NewClient_begin None None sample_options) of
      None \<Rightarrow> False
    | Some s \<Rightarrow> Start_pc s = LoopReturned ErrConnectionClosed) \<and>
   (case run sample_externals
           ([ReaderIter (ReadOk (''NAGTSTART'' @ [CHR 0x03])), Handshake, StartCall,
             ReaderIter (ReadFails [] io_EOF)] @ shutdown_schedule [])
           (NewClient_begin None None sample_options) of
      None \<Rightarrow> False
    | Some s \<Rightarrow> Start_pc s = LoopReturned ErrConnectionClosed)"
proof -
  let ?x = sample_externals
  let ?s0 = "NewClient_begin None None sample_options"
  obtain s e where r: "run ?x sample_stop_run ?s0 = Some s" and pc: "Start_pc s = LoopReturned e"
    by (simp add: sample_stop_run_def model_defs)
  obtain t e' where rt: "run ?x
           ([ReaderIter (ReadOk (''NAGTSTART'' @ [CHR 0x03])), Handshake, StartCall,
             ReaderIter (ReadFails [] io_EOF)] @ shutdown_schedule []) ?s0 = Some t"
    and pct: "Start_pc t = LoopReturned e'"
    by (simp add: shutdown_schedule_def model_defs)
  show ?thesis
    using r pc Start_returns_ErrConnectionClosed [OF r pc]
      rt pct Start_returns_ErrConnectionClosed [OF rt pct]
    by simp
qed

section \<open>Stream failures and the handshake\<close>

lemma reader_stopped_deadlock:
  assumes "NewClient_pc s = NCWaiting" and "Start_pc s = LoopIdle"
    and "buf (events (client s)) = []" and "\<not> closed (events (client s))"
    and "readEvents_pc s = ReaderReturned err"
  shows "step x l s = None"
  using assms
  by (cases l)
    (simp_all add: NewClient_handshake_def chan_recv_def Start_recv_event_def
      Start_send_notification_def Start_send_event_def Start_recv_shutdown_def Start_next_def
      Start_drain_def Start_send_done_def)

lemma panicked_stuck:
  assumes "readEvents_pc s = ReaderPanicked" and "NewClient_pc s = NCPanicked"
    and "Start_pc s = LoopPanicked"
  shows "step x l s = None"
  using assms
  by (cases l)
    (simp_all add: Start_recv_event_def Start_send_notification_def Start_send_event_def
      Start_recv_shutdown_def Start_next_def Start_drain_def Start_send_done_def)

text \<open>
  C2, evaluated where it fails. The first read on the connection fails before any record
  has arrived: \<open>readEvents\<close> returns, the goroutine logs the error and waits in its send on
  \<open>c.shutdown\<close>; \<open>NewClient\<close> is still waiting on the event queue, the connection has not
  been closed, and no goroutine can move any more, so \<open>NewClient\<close> never returns. And when
  the first event has keyword \<open>ERROR\<close>, \<open>NewClient\<close> returns \<open>ErrHelloNotReceived\<close> with the
  connection open and the frame reader still in its loop.
\<close>

theorem handshake_without_event_blocks:
  "(case run sample_externals [ReaderIter (ReadFails [] io_EOF)]
           (NewClient_begin None None sample_options) of
      None \<Rightarrow> False
    | Some s \<Rightarrow>
        NewClient_pc s = NCWaiting \<and> readEvents_pc s = ReaderReturned io_EOF \<and>
        shutdown (client s) = 1 \<and> conn_closed (client s) = False \<and>
        (\<forall>l. step sample_externals l s = None)) \<and>
   (case run sample_externals [ReaderIter (ReadOk (''NERROR'' @ [CHR 0x03])), Handshake]
           (NewClient_begin None None sample_options) of
      None \<Rightarrow> False
    | Some s \<Rightarrow>
        NewClient_pc s = NCReturned (Some ErrHelloNotReceived) \<and>
        conn_closed (client s) = False \<and> readEvents_pc s = ReaderLoop)"
proof -
  let ?x = sample_externals
  let ?s0 = "NewClient_begin None None sample_options"
  obtain d where rd: "run ?x [ReaderIter (ReadFails [] io_EOF)] ?s0 = Some d"
    and fd: "NewClient_pc d = NCWaiting" "Start_pc d = LoopIdle"
      "buf (events (client d)) = []" "\<not> closed (events (client d))"
      "readEvents_pc d = ReaderReturned io_EOF"
      "shutdown (client d) = 1" "conn_closed (client d) = False"
    by (simp add: model_defs)
  have never: "\<forall>l. step ?x l d = None"
    using reader_stopped_deadlock[OF fd(1-5)] by blast
  obtain e where re: "run ?x [ReaderIter (ReadOk (''NERROR'' @ [CHR 0x03])), Handshake] ?s0 = Some e"
    and fe: "NewClient_pc e = NCReturned (Some ErrHelloNotReceived)"
      "conn_closed (client e) = False" "readEvents_pc e = ReaderLoop"
    by (simp add: model_defs)
  show ?thesis
    unfolding rd re using fd never fe by (simp del: step.simps)
qed

text \<open>
  C6, evaluated where it fails. The read deadline expires before any record has arrived:
  \<open>readEvents\<close> returns the error and the goroutine logs it and waits in its send on
  \<open>c.shutdown\<close>; but the session loop is not running, \<open>NewClient\<close> is still waiting on the
  event queue, and no goroutine can move any more. No shutdown takes place: the state
  stays \<open>ConnOK\<close> and nothing reaches a caller.
\<close>

theorem stream_timeout_without_shutdown:
  "(case run sample_externals [ReaderIter (ReadFails [] ErrTimeout)]
           (NewClient_begin None None sample_options) of
      None \<Rightarrow> False
    | Some s \<Rightarrow>
        readEvents_pc s = ReaderReturned ErrTimeout \<and>
        logger (client s) =
          [newLogEntry LogLevelError ''Error received!'' [(''error'', LError ErrTimeout)]] \<and>
        shutdown (client s) = 1 \<and> state (client s) = ConnOK \<and>
        conn_closed (client s) = False \<and>
        NewClient_pc s = NCWaiting \<and> Start_pc s = LoopIdle \<and>
        (\<forall>l. step sample_externals l s = None))"
proof -
  let ?x = sample_externals
  let ?s0 = "NewClient_begin None None sample_options"
  obtain d where rd: "run ?x [ReaderIter (ReadFails [] ErrTimeout)] ?s0 = Some d"
    and fd: "NewClient_pc d = NCWaiting" "Start_pc d = LoopIdle"
      "buf (events (client d)) = []" "\<not> closed (events (client d))"
      "readEvents_pc d = ReaderReturned ErrTimeout"
      "shutdown (client d) = 1" "state (client d) = ConnOK" "conn_closed (client d) = False"
      "logger (client d) =
          [newLogEntry LogLevelError ''Error received!'' [(''error'', LError ErrTimeout)]]"
    by (simp add: model_defs)
  have never: "\<forall>l. step ?x l d = None"
    using reader_stopped_deadlock[OF fd(1-5)] by blast
  show ?thesis
    unfolding rd using fd never by (simp del: step.simps)
qed

section \<open>The shutdown sequence\<close>

lemma queued_0:
  "run sample_externals sample_running (NewClient_begin None None sample_options) =
     Some (queued 0)"
  by (simp add: sample_running_def queued_def model_defs decoded_entry_def)

lemma concat_replicate_snoc:
  "concat (replicate n xs) @ xs = xs @ concat (replicate n xs)"
  by (induction n) auto

lemma queued_Suc:
  assumes "n < 128"
  shows "step sample_externals (ReaderIter (ReadOk sample_call)) (queued n) =
           Some (queued (Suc n))"
  using assms
  by (simp add: queued_def sample_call_def model_defs decoded_entry_def
      replicate_append_same concat_replicate_snoc)

lemma queued_run:
  "n \<le> 128 \<Longrightarrow> run sample_externals (sample_burst n) (queued 0) = Some (queued n)"
proof (induction n)
  case 0
  then show ?case by (simp add: sample_burst_def)
next
  case (Suc n)
  then have r: "run sample_externals (sample_burst n) (queued 0) = Some (queued n)" by simp
  have "sample_burst (Suc n) = sample_burst n @ [ReaderIter (ReadOk sample_call)]"
    by (simp add: sample_burst_def replicate_append_same)
  then show ?case
    unfolding run_append_Some[OF r] using run_append_Some[OF r] queued_Suc[of n] Suc.prems
    by (simp add: run_single del: run.simps step.simps)
qed

lemma queued_stop_burst:
  "\<exists>s. run sample_externals sample_stop_burst (queued 128) = Some s \<and>
       Start_ops s = [OpStore ConnClosed, OpConnClose, OpCloseNotification, OpCloseEvents] \<and>
       readEvents_pc s = ReaderPanicked \<and> Start_pc s = LoopPanicked \<and>
       NewClient_pc s = NCPanicked \<and> state (client s) = ConnClosed \<and>
       requests (client s) 7 = Some 0 \<and>
       deref (client s) 0 = Some \<lparr>eventChan = make_chan 0, doneChan = make_chan 0\<rparr> \<and>
       completed s = []"
  by (simp add: sample_stop_burst_def queued_def sample_call_def model_defs)

text \<open>
  C3, evaluated where it fails. A command is pending; 128 records fill the event queue
  before the session loop takes any, and the frame reader waits in its send of the next
  one. \<open>Stop\<close> is called: the session loop takes the shutdown case, stores \<open>ConnClosed\<close>,
  closes the connection, the notification channel and the event queue. The reader's send
  then meets the closed queue and panics, which ends the process: the loop never reaches
  its \<open>range\<close>, the pending request gets no signal on \<open>done\<close>, its caller gets nothing,
  and nothing can move any more.
\<close>

theorem shutdown_cut_short_by_panic:
  "(case run sample_externals (sample_running @ sample_burst 128 @ sample_stop_burst)
           (NewClient_begin None None sample_options) of
      None \<Rightarrow> False
    | Some s \<Rightarrow>
        Start_ops s = [OpStore ConnClosed, OpConnClose, OpCloseNotification, OpCloseEvents] \<and>
        readEvents_pc s = ReaderPanicked \<and> Start_pc s = LoopPanicked \<and>
        state (client s) = ConnClosed \<and>
        requests (client s) 7 = Some 0 \<and>
        deref (client s) 0 = Some \<lparr>eventChan = make_chan 0, doneChan = make_chan 0\<rparr> \<and>
        completed s = [] \<and>
        (\<forall>l. step sample_externals l s = None))"
proof -
  let ?x = sample_externals
  let ?s0 = "NewClient_begin None None sample_options"
  have q: "run ?x (sample_running @ sample_burst 128) ?s0 = Some (queued 128)"
    unfolding run_append_Some[OF queued_0] by (rule queued_run) simp
  from queued_stop_burst obtain s where
    r: "run ?x sample_stop_burst (queued 128) = Some s"
    and f: "Start_ops s = [OpStore ConnClosed, OpConnClose, OpCloseNotification, OpCloseEvents]"
      "readEvents_pc s = ReaderPanicked" "Start_pc s = LoopPanicked"
      "NewClient_pc s = NCPanicked" "state (client s) = ConnClosed"
      "requests (client s) 7 = Some 0"
      "deref (client s) 0 = Some \<lparr>eventChan = make_chan 0, doneChan = make_chan 0\<rparr>"
      "completed s = []"
    by blast
  have whole: "run ?x (sample_running @ sample_burst 128 @ sample_stop_burst) ?s0 = Some s"
    using run_append_Some[OF q, of sample_stop_burst] r by (simp only: append_assoc)
  have never: "\<forall>l. step ?x l s = None"
    using panicked_stuck[OF f(2,4,3)] by blast
  show ?thesis
    unfolding whole using f never by (simp del: step.simps)
qed

text \<open>
  The send on \<open>done\<close> waits for a receiver. A response reaches its caller, which has not
  yet removed its entry when \<open>Stop\<close> is called; the \<open>range\<close> meets the entry and the loop
  waits in \<open>r.done <- struct{}{}\<close>. The caller, past its wait, removes the entry and does
  not receive again, and no move of the session loop is possible: it has not returned.
\<close>

lemma drain_waits_for_receiver:
  "(case run sample_externals
           (sample_running @ sample_response @
            [AwaitEvent 0, StopCall, LoopRecvShutdown, LoopNext, LoopNext, LoopNext, LoopNext,
             LoopDrain 7, Unregister 7])
           (NewClient_begin None None sample_options) of
      None \<Rightarrow> False
    | Some s \<Rightarrow>
        Start_pc s = LoopSendingDone [] 7 0 \<and>
        completed s = [(0, Inr (sample_event ''OK'' EventTypeResponse 7))] \<and>
        Start_ops s =
          [OpLookup 7, OpSendEvent 7 (sample_event ''OK'' EventTypeResponse 7),
           OpStore ConnClosed, OpConnClose, OpCloseNotification, OpCloseEvents] \<and>
        step sample_externals (AwaitDone 0) s = None \<and>
        step sample_externals LoopSendDone s = None \<and>
        step sample_externals LoopNext s = None \<and>
        step sample_externals LoopRecvEvent s = None \<and>
        step sample_externals LoopRecvShutdown s = None \<and>
        step sample_externals LoopSendEvent s = None \<and>
        step sample_externals LoopSendNotification s = None)"
  by (simp add: sample_running_def sample_response_def model_defs)

section \<open>Notifications\<close>

lemma step_NewClient_pc:
  assumes "step x l s = Some s'" and "l \<noteq> Handshake"
  shows "NewClient_pc s' = NewClient_pc s \<or>
         (NewClient_pc s' = NCPanicked \<and> Start_pc s' = LoopPanicked)"
proof (cases "l = ReaderSend \<or> (\<exists>outcome. l = ReaderIter outcome)")
  case True
  then obtain outcome where "l = ReaderIter outcome \<or> l = ReaderSend" by blast
  from reader_step[OF assms(1) this] show ?thesis
    by (auto simp: reader_moves_def panic_def)
next
  case False
  with assms show ?thesis
    by (cases l)
      (auto simp: Start_recv_event_def Start_event_def notification_send_def
        eventChan_send_def doneChan_send_def panic_def chan_close_def
        Start_send_notification_def Start_send_event_def Start_send_done_def
        Start_recv_shutdown_def Start_next_def Start_drain_def await_event_def await_done_def
        split: if_splits option.splits recv_result.splits send_result.splits loop_pc.splits
          sum.splits)
qed

lemma Start_recv_event_notification:
  assumes "Start_pc s = LoopSelect" and "buf (events (client s)) = event # q"
    and "Type event = EventTypeNotification"
  shows "step x LoopRecvEvent s =
           notification_send event (s\<lparr>client := (client s)\<lparr>events := (events (client s))\<lparr>buf := q\<rparr>\<rparr>\<rparr>)"
  using assms by (simp add: Start_recv_event_def chan_recv_def Start_event_def)

lemma notification_send_room:
  assumes "\<not> closed (notification (client s))"
    and "length (buf (notification (client s))) < cap (notification (client s))"
  shows "notification_send event s =
           Some (s\<lparr>client := (client s)\<lparr>notification := (notification (client s))
                                   \<lparr>buf := buf (notification (client s)) @ [event]\<rparr>\<rparr>,
                   Start_pc := LoopSelect,
                   Start_ops := Start_ops s @ [OpSendNotification event]\<rparr>)"
  using assms by (simp add: notification_send_def chan_send_def)

lemma notification_send_full:
  assumes "\<not> closed (notification (client s))"
    and "\<not> length (buf (notification (client s))) < cap (notification (client s))"
  shows "notification_send event s = Some (s\<lparr>Start_pc := LoopSendingNotification event\<rparr>)"
  using assms by (simp add: notification_send_def chan_send_def)

lemma sending_notification_waits:
  assumes "Start_pc s = LoopSendingNotification event"
    and "\<not> closed (notification (client s))"
    and "\<not> length (buf (notification (client s))) < cap (notification (client s))"
  shows "step x LoopRecvEvent s = None \<and> step x LoopRecvShutdown s = None \<and>
         step x LoopNext s = None \<and> step x LoopSendNotification s = None \<and>
         step x (LoopDrain i) s = None"
  using assms
  by (simp add: Start_recv_event_def Start_recv_shutdown_def Start_next_def
      Start_send_notification_def Start_drain_def chan_send_def)

lemma sending_notification_resumes:
  assumes "Start_pc s = LoopSendingNotification event"
    and "\<not> closed (notification (client s))"
    and "length (buf (notification (client s))) < cap (notification (client s))"
  shows "step x LoopSendNotification s =
           Some (s\<lparr>client := (client s)\<lparr>notification := (notification (client s))
                                   \<lparr>buf := buf (notification (client s)) @ [event]\<rparr>\<rparr>,
                   Start_pc := LoopSelect,
                   Start_ops := Start_ops s @ [OpSendNotification event]\<rparr>)"
  using assms
  by (simp add: Start_send_notification_def notification_send_def chan_send_def)

lemma Start_recv_event_table:
  assumes "Start_pc s = LoopSelect" and "buf (events (client s)) = event # q"
    and "Type event = EventTypeNotification"
  shows "step x LoopRecvEvent (s\<lparr>client := (client s)\<lparr>requests := m\<rparr>\<rparr>) =
           map_option (\<lambda>s'. s'\<lparr>client := (client s')\<lparr>requests := m\<rparr>\<rparr>)
             (step x LoopRecvEvent s)"
  using assms
  by (simp add: Start_recv_event_def Start_event_def notification_send_def chan_recv_def
      chan_send_def panic_def)

text \<open>
  C7. A notification taken from the event queue is never looked up in the request table:
  the table is left as it is and the step does not depend on it. The loop sends the event
  on the notification channel; when the channel is full it waits in that send, where no
  other move of the loop is possible, and the send goes through once there is room.
\<close>

theorem notification_forwarded_unmatched:
  assumes "run x ls (NewClient_begin ctx_err dial_err options) = Some s"
    and "Start_pc s = LoopSelect" and "buf (events (client s)) = event # q"
    and "Type event = EventTypeNotification"
  shows "(\<exists>s'. step x LoopRecvEvent s = Some s' \<and>
            requests (client s') = requests (client s) \<and> buf (events (client s')) = q \<and>
            (if length (buf (notification (client s))) < cap (notification (client s))
             then buf (notification (client s')) = buf (notification (client s)) @ [event] \<and>
                  Start_pc s' = LoopSelect \<and>
                  Start_ops s' = Start_ops s @ [OpSendNotification event]
             else notification (client s') = notification (client s) \<and>
                  Start_pc s' = LoopSendingNotification event \<and>
                  Start_ops s' = Start_ops s \<and>
                  step x LoopRecvEvent s' = None \<and> step x LoopRecvShutdown s' = None \<and>
                  step x LoopNext s' = None \<and> step x LoopSendNotification s' = None)) \<and>
         (\<forall>t. Start_pc t = LoopSendingNotification event \<and>
               \<not> closed (notification (client t)) \<and>
               length (buf (notification (client t))) < cap (notification (client t)) \<longrightarrow>
               step x LoopSendNotification t =
                 Some (t\<lparr>client := (client t)\<lparr>notification := (notification (client t))
                                   \<lparr>buf := buf (notification (client t)) @ [event]\<rparr>\<rparr>,
                         Start_pc := LoopSelect,
                         Start_ops := Start_ops t @ [OpSendNotification event]\<rparr>)) \<and>
         (\<forall>m. step x LoopRecvEvent (s\<lparr>client := (client s)\<lparr>requests := m\<rparr>\<rparr>) =
               map_option (\<lambda>s'. s'\<lparr>client := (client s')\<lparr>requests := m\<rparr>\<rparr>)
                 (step x LoopRecvEvent s))"
proof -
  have i: "inv s" using inv_run[OF assms(1) inv_begin] .
  let ?s1 = "s\<lparr>client := (client s)\<lparr>events := (events (client s))\<lparr>buf := q\<rparr>\<rparr>\<rparr>"
  have op: "\<not> closed (notification (client ?s1))"
    using i assms(2) by (simp add: inv_def channels_open_def)
  note st = Start_recv_event_notification[OF assms(2,3,4), of x]
  have first: "\<exists>s'. step x LoopRecvEvent s = Some s' \<and>
            requests (client s') = requests (client s) \<and> buf (events (client s')) = q \<and>
            (if length (buf (notification (client s))) < cap (notification (client s))
             then buf (notification (client s')) = buf (notification (client s)) @ [event] \<and>
                  Start_pc s' = LoopSelect \<and>
                  Start_ops s' = Start_ops s @ [OpSendNotification event]
             else notification (client s') = notification (client s) \<and>
                  Start_pc s' = LoopSendingNotification event \<and>
                  Start_ops s' = Start_ops s \<and>
                  step x LoopRecvEvent s' = None \<and> step x LoopRecvShutdown s' = None \<and>
                  step x LoopNext s' = None \<and> step x LoopSendNotification s' = None)"
  proof (cases "length (buf (notification (client s))) < cap (notification (client s))")
    case True
    then have "length (buf (notification (client ?s1))) < cap (notification (client ?s1))"
      by simp
    from notification_send_room[OF op this, of event] True show ?thesis
      unfolding st by simp
  next
    case False
    then have full: "\<not> length (buf (notification (client ?s1))) < cap (notification (client ?s1))"
      by simp
    let ?s2 = "?s1\<lparr>Start_pc := LoopSendingNotification event\<rparr>"
    have w: "step x LoopRecvEvent ?s2 = None \<and> step x LoopRecvShutdown ?s2 = None \<and>
         step x LoopNext ?s2 = None \<and> step x LoopSendNotification ?s2 = None \<and>
         step x (LoopDrain 0) ?s2 = None"
      using op full by (intro sending_notification_waits) simp_all
    from notification_send_full[OF op full, of event] False w show ?thesis
      unfolding st by simp
  qed
  have second: "step x LoopSendNotification t =
                 Some (t\<lparr>client := (client t)\<lparr>notification := (notification (client t))
                                   \<lparr>buf := buf (notification (client t)) @ [event]\<rparr>\<rparr>,
                         Start_pc := LoopSelect,
                         Start_ops := Start_ops t @ [OpSendNotification event]\<rparr>)"
    if "Start_pc t = LoopSendingNotification event" "\<not> closed (notification (client t))"
       "length (buf (notification (client t))) < cap (notification (client t))" for t
    using sending_notification_resumes[OF that] .
  note third = Start_recv_event_table[OF assms(2,3,4), of x]
  show ?thesis
    using first second third by blast
qed

lemma flooded_0:
  "run sample_externals sample_started (NewClient_begin None None sample_options) = Some (flooded 0)"
  by (simp add: sample_started_def flooded_def model_defs decoded_entry_def)

lemma flooded_Suc:
  assumes "n < 128"
  shows "run sample_externals [ReaderIter (ReadOk sample_call), LoopRecvEvent] (flooded n) =
           Some (flooded (Suc n))"
  using assms
  by (simp add: flooded_def sample_call_def model_defs decoded_entry_def
      replicate_append_same concat_replicate_snoc)

lemma sample_flood_Suc:
  "sample_flood (Suc n) = sample_flood n @ [ReaderIter (ReadOk sample_call), LoopRecvEvent]"
proof -
  have "replicate (Suc n) [ReaderIter (ReadOk sample_call), LoopRecvEvent] =
        replicate n [ReaderIter (ReadOk sample_call), LoopRecvEvent] @
          [[ReaderIter (ReadOk sample_call), LoopRecvEvent]]"
    by (simp add: replicate_append_same)
  then show ?thesis unfolding sample_flood_def by (simp only: concat_append) simp
qed

lemma flooded_run:
  "n \<le> 128 \<Longrightarrow> run sample_externals (sample_flood n) (flooded 0) = Some (flooded n)"
proof (induction n)
  case 0
  then show ?case by (simp add: sample_flood_def)
next
  case (Suc n)
  then have "run sample_externals (sample_flood n) (flooded 0) = Some (flooded n)" by simp
  from run_append_Some[OF this] flooded_Suc[of n] Suc.prems show ?case
    unfolding sample_flood_Suc by simp
qed

lemma flooded_reachable:
  "n \<le> 128 \<Longrightarrow>
   run sample_externals (sample_started @ sample_flood n)
     (NewClient_begin None None sample_options) = Some (flooded n)"
  using run_append_Some[OF flooded_0] flooded_run by simp

lemma flooded_queued:
  "\<exists>t. step sample_externals (ReaderIter (ReadOk sample_call)) (flooded n) = Some t \<and>
       Start_pc t = LoopSelect \<and>
       buf (events (client t)) = [sample_event ''CALL'' EventTypeNotification 0] \<and>
       buf (notification (client t)) =
         replicate n (sample_event ''CALL'' EventTypeNotification 0) \<and>
       cap (notification (client t)) = 128 \<and> \<not> closed (notification (client t)) \<and>
       requests (client t) = Map.empty \<and> Start_ops t = Start_ops (flooded n) \<and>
       NewClient_pc t = NCReturned None"
  by (simp add: flooded_def sample_call_def model_defs)

theorem notification_forwarded_unmatched_witness:
  "(case run sample_externals
           (sample_started @ [ReaderIter (ReadOk sample_call), LoopRecvEvent])
           (NewClient_begin None None sample_options) of
      None \<Rightarrow> False
    | Some s \<Rightarrow>
        buf (notification (client s)) = [sample_event ''CALL'' EventTypeNotification 0] \<and>
        Start_pc s = LoopSelect \<and>
        Start_ops s = [OpSendNotification (sample_event ''CALL'' EventTypeNotification 0)]) \<and>
   (case run sample_externals
           (sample_started @ sample_flood 128 @ [ReaderIter (ReadOk sample_call), LoopRecvEvent])
           (NewClient_begin None None sample_options) of
      None \<Rightarrow> False
    | Some s \<Rightarrow>
        length (buf (notification (client s))) = 128 \<and>
        Start_pc s = LoopSendingNotification (sample_event ''CALL'' EventTypeNotification 0) \<and>
        step sample_externals LoopRecvShutdown s = None \<and>
        step sample_externals LoopSendNotification s = None \<and>
        (case run sample_externals [Consume, LoopSendNotification] s of
           None \<Rightarrow> False
         | Some s' \<Rightarrow>
             length (buf (notification (client s'))) = 128 \<and>
             last (buf (notification (client s'))) =
               sample_event ''CALL'' EventTypeNotification 0 \<and>
             Start_pc s' = LoopSelect))"
proof -
  let ?x = sample_externals
  let ?s0 = "NewClient_begin None None sample_options"
  let ?ev = "sample_event ''CALL'' EventTypeNotification 0"
  have ty: "Type ?ev = EventTypeNotification" by (simp add: sample_event_def)
  \<comment> \<open>room in the sink\<close>
  from flooded_queued[of 0] obtain t where
    t: "step ?x (ReaderIter (ReadOk sample_call)) (flooded 0) = Some t"
      "Start_pc t = LoopSelect" "buf (events (client t)) = [?ev]"
      "buf (notification (client t)) = []" "cap (notification (client t)) = 128"
      "Start_ops t = Start_ops (flooded 0)"
    by auto
  have rt: "run ?x (sample_started @ [ReaderIter (ReadOk sample_call)]) ?s0 = Some t"
    unfolding run_append_Some[OF flooded_0] run_single using t(1) .
  from notification_forwarded_unmatched[OF rt t(2,3) ty] t(4,5,6)
  obtain t' where t': "step ?x LoopRecvEvent t = Some t'"
    "buf (notification (client t')) = [?ev]" "Start_pc t' = LoopSelect"
    "Start_ops t' = [OpSendNotification ?ev]"
    by (auto simp: flooded_def)
  have "run ?x ((sample_started @ [ReaderIter (ReadOk sample_call)]) @ [LoopRecvEvent]) ?s0 = Some t'"
    unfolding run_append_Some[OF rt] run_single using t'(1) .
  then have first: "run ?x (sample_started @ [ReaderIter (ReadOk sample_call), LoopRecvEvent]) ?s0 = Some t'"
    by (simp only: append_assoc append_Cons append_Nil)
  \<comment> \<open>a full sink\<close>
  have fr: "run ?x (sample_started @ sample_flood 128) ?s0 = Some (flooded 128)"
    by (rule flooded_reachable) simp
  from flooded_queued[of 128] obtain u where
    u: "step ?x (ReaderIter (ReadOk sample_call)) (flooded 128) = Some u"
      "Start_pc u = LoopSelect" "buf (events (client u)) = [?ev]"
      "buf (notification (client u)) = replicate 128 ?ev" "cap (notification (client u)) = 128"
      "\<not> closed (notification (client u))" "NewClient_pc u = NCReturned None"
    by auto
  have ru: "run ?x ((sample_started @ sample_flood 128) @ [ReaderIter (ReadOk sample_call)]) ?s0 = Some u"
    unfolding run_append_Some[OF fr] run_single using u(1) .
  have full: "\<not> length (buf (notification (client u))) < cap (notification (client u))"
    unfolding u(4,5) by simp
  note inst = notification_forwarded_unmatched[OF ru u(2,3) ty]
  from inst full obtain u' where u': "step ?x LoopRecvEvent u = Some u'"
    "notification (client u') = notification (client u)"
    "Start_pc u' = LoopSendingNotification ?ev"
    "step ?x LoopRecvShutdown u' = None" "step ?x LoopSendNotification u' = None"
    by auto
  have second: "run ?x (sample_started @ sample_flood 128 @
                  [ReaderIter (ReadOk sample_call), LoopRecvEvent]) ?s0 = Some u'"
  proof -
    have "run ?x (((sample_started @ sample_flood 128) @ [ReaderIter (ReadOk sample_call)]) @
                  [LoopRecvEvent]) ?s0 = Some u'"
      unfolding run_append_Some[OF ru] run_single using u'(1) .
    then show ?thesis by (simp only: append_assoc append_Cons append_Nil)
  qed
  have len: "length (buf (notification (client u'))) = 128"
    unfolding u'(2) u(4) by simp
  let ?v = "u'\<lparr>client := (client u')\<lparr>notification := (notification (client u'))
                 \<lparr>buf := replicate 127 ?ev\<rparr>\<rparr>, received := received u' @ [?ev]\<rparr>"
  have rep: "replicate 128 ?ev = ?ev # replicate 127 ?ev"
    by (simp only: replicate_Suc[symmetric]) simp
  have ret: "NewClient_pc u' = NCReturned None"
    using step_NewClient_pc[OF u'(1)] u'(3) u(7) by simp
  then have cons: "step ?x Consume u' = Some ?v"
    using u'(2) u(4) rep by (simp add: chan_recv_def)
  have v: "Start_pc ?v = LoopSendingNotification ?ev" "\<not> closed (notification (client ?v))"
    "length (buf (notification (client ?v))) < cap (notification (client ?v))"
    using u'(2,3) u(5,6) by simp_all
  from inst v have send: "step ?x LoopSendNotification ?v =
      Some (?v\<lparr>client := (client ?v)\<lparr>notification := (notification (client ?v))
                                   \<lparr>buf := buf (notification (client ?v)) @ [?ev]\<rparr>\<rparr>,
                         Start_pc := LoopSelect,
                         Start_ops := Start_ops ?v @ [OpSendNotification ?ev]\<rparr>)"
    by blast
  have third: "case run ?x [Consume, LoopSendNotification] u' of
           None \<Rightarrow> False
         | Some s' \<Rightarrow>
             length (buf (notification (client s'))) = 128 \<and>
             last (buf (notification (client s'))) = ?ev \<and>
             Start_pc s' = LoopSelect"
    using cons send by (simp del: step.simps)
  show ?thesis
    using first t'(2,3,4) second len u'(3,4,5) third by (simp del: run.simps step.simps)
qed

section \<open>Responses\<close>










section \<open>The handshake\<close>

lemma before_return_step:
  assumes "step x l s = Some s'" and "before_return s"
  shows "before_return s'"
proof (cases "no_client (NewClient_pc s)")
  case False
  then have "l \<noteq> Handshake" using assms(1) by (auto split: if_splits)
  from step_NewClient_pc[OF assms(1) this] False show ?thesis
    by (auto simp: before_return_def)
next
  case True
  with assms(2) have idle: "Start_pc s = LoopIdle" "Start_ops s = []"
    "buf (notification (client s)) = []" "received s = []" "requests (client s) = Map.empty"
    by (simp_all add: before_return_def)
  from True have nr: "NewClient_pc s \<noteq> NCReturned None" by auto
  show ?thesis
  proof (cases "l = ReaderSend \<or> (\<exists>outcome. l = ReaderIter outcome)")
    case True
    then obtain outcome where "l = ReaderIter outcome \<or> l = ReaderSend" by blast
    from reader_step[OF assms(1) this] idle show ?thesis
      by (auto simp: before_return_def reader_moves_def panic_def)
  next
    case False
    show ?thesis
    proof (cases l)
      case Handshake
      with assms obtain c' r where r: "NewClient_handshake x (client s) = Some (c', r)"
        and s': "s' = s\<lparr>client := c', NewClient_pc := NCReturned r\<rparr>"
        by (auto split: if_splits option.splits)
      from NewClient_handshake_frame[OF r] idle show ?thesis
        unfolding s' by (simp add: before_return_def)
    qed (use assms(1) False nr idle in \<open>auto simp: Start_recv_event_def
          Start_send_notification_def Start_send_event_def Start_send_done_def
          Start_recv_shutdown_def Start_next_def Start_drain_def
          split: if_splits option.splits\<close>)
  qed
qed

lemma before_return_run:
  assumes "run x ls s = Some s'" and "before_return s"
  shows "before_return s'"
  using assms
proof (induction ls arbitrary: s)
  case Nil
  then show ?case by simp
next
  case (Cons l ls)
  then show ?case by (auto split: option.splits dest: before_return_step)
qed

lemma before_return_begin: "before_return (NewClient_begin ctx_err dial_err options)"
  by (simp add: before_return_def NewClient_begin_def new_Client_def make_chan_def
      split: option.splits)

lemma events_send_buf:
  assumes "events_send e' c = (c', pc')"
  shows "set (buf (events c')) \<subseteq> insert e' (set (buf (events c))) \<and>
         notification c' = notification c \<and>
         (pc' = ReaderSending e' \<or> pc' = ReaderLoop \<or> pc' = ReaderPanicked)"
  using assms by (auto simp: events_send_def chan_send_def split: if_splits)

lemma readEvents_iter_buf:
  assumes "readEvents_iter x outcome c = Some (c', pc')"
    and "\<forall>chunk. outcome = ReadOk chunk \<longrightarrow> decodeEvent x chunk \<noteq> Inr e"
    and "e \<notin> set (buf (events c))"
  shows "e \<notin> set (buf (events c')) \<and> pc' \<noteq> ReaderSending e"
proof (cases outcome)
  case (SetDeadlineFails err)
  then show ?thesis using assms
    by (auto simp: readEvents_iter_def readEvents_return_def logger_log_def split: if_splits)
next
  case (ReadFails chunk err)
  then show ?thesis using assms
    by (auto simp: readEvents_iter_def readEvents_return_def logger_log_def split: if_splits)
next
  case (ReadOk chunk)
  then have r: "readEvents_chunk x chunk c = (c', pc')" and ne: "decodeEvent x chunk \<noteq> Inr e"
    using assms by (auto simp: readEvents_iter_def split: if_splits)
  show ?thesis
  proof (cases "chunk \<noteq> [] \<and> (last chunk = ETX x \<or> last chunk = ETB x)")
    case False
    then show ?thesis using r assms(3) by (auto simp: readEvents_chunk_def split: if_splits)
  next
    case True
    show ?thesis
    proof (cases "decodeEvent x chunk")
      case (Inl err)
      then show ?thesis using r True assms(3)
        by (auto simp: readEvents_chunk_def logger_log_def)
    next
      case (Inr e')
      then have "events_send e' (logger_log (decoded_entry e')
          (logger_log (newLogEntry LogLevelDebug ''Event has received.''
                     [(''raw'', LString chunk)]) c)) = (c', pc')"
        using r True by (auto simp: readEvents_chunk_def)
      from events_send_buf[OF this] Inr ne assms(3) show ?thesis
        by (auto simp: logger_log_def)
    qed
  qed
qed

lemma absent_reader_moves:
  assumes "absent e s" and "e \<notin> set (buf (events c'))" and "pc' \<noteq> ReaderSending e"
    and "notification c' = notification (client s)"
  shows "absent e (reader_moves (c', pc') s)"
  using assms by (auto simp: absent_def reader_moves_def panic_def)

lemma absent_step:
  assumes "step x l s = Some s'" and "absent e s"
    and "\<forall>chunk. l = ReaderIter (ReadOk chunk) \<longrightarrow> decodeEvent x chunk \<noteq> Inr e"
  shows "absent e s'"
proof (cases l)
  case (ReaderIter outcome)
  with assms(1) obtain r where "readEvents_iter x outcome (client s) = Some r"
    and s': "s' = reader_moves r s"
    by (auto split: if_splits option.splits)
  then obtain c' pc' where r: "readEvents_iter x outcome (client s) = Some (c', pc')"
    and rr: "r = (c', pc')"
    by (cases r) auto
  have "\<forall>chunk. outcome = ReadOk chunk \<longrightarrow> decodeEvent x chunk \<noteq> Inr e"
    using assms(3) ReaderIter by simp
  from readEvents_iter_buf[OF r this] readEvents_iter_frame[OF r] assms(2) show ?thesis
    unfolding s' rr by (intro absent_reader_moves) (simp_all add: absent_def)
next
  case ReaderSend
  with assms(1) obtain e' where pc: "readEvents_pc s = ReaderSending e'"
    and s': "s' = reader_moves (events_send e' (client s)) s"
    by (auto split: reader_pc.splits send_result.splits)
  obtain c' pc' where r: "events_send e' (client s) = (c', pc')"
    by (cases "events_send e' (client s)")
  from pc assms(2) have "e' \<noteq> e" by (auto simp: absent_def)
  with events_send_buf[OF r] assms(2) show ?thesis
    unfolding s' r by (intro absent_reader_moves) (auto simp add: absent_def)
next
  case Handshake
  with assms(1,2) show ?thesis
    by (auto simp: absent_def NewClient_handshake_def chan_recv_def logger_log_def
        split: if_splits option.splits list.splits)
next
  case LoopRecvEvent
  with assms(1,2) show ?thesis
    by (auto simp: absent_def Start_recv_event_def Start_event_def notification_send_def
        eventChan_send_def chan_recv_def chan_send_def panic_def
        split: if_splits option.splits list.splits)
next
  case LoopSendNotification
  with assms(1,2) show ?thesis
    by (auto simp: absent_def Start_send_notification_def notification_send_def chan_send_def
        panic_def split: if_splits loop_pc.splits)
next
  case LoopSendEvent
  with assms(1,2) show ?thesis
    by (auto simp: absent_def Start_send_event_def eventChan_send_def chan_send_def
        panic_def split: if_splits loop_pc.splits option.splits)
next
  case LoopNext
  with assms(1,2) show ?thesis
    by (auto simp: absent_def Start_next_def chan_close_def panic_def
        split: if_splits loop_pc.splits)
next
  case (LoopDrain i)
  with assms(1,2) show ?thesis
    by (auto simp: absent_def Start_drain_def doneChan_send_def chan_send_def panic_def
        split: if_splits loop_pc.splits option.splits)
next
  case LoopSendDone
  with assms(1,2) show ?thesis
    by (auto simp: absent_def Start_send_done_def doneChan_send_def chan_send_def panic_def
        split: if_splits loop_pc.splits option.splits)
next
  case Consume
  with assms(1,2) show ?thesis
    by (auto simp: absent_def chan_recv_def split: list.splits if_splits)
next
  case (AwaitEvent a)
  with assms(1,2) show ?thesis
    by (auto simp: absent_def await_event_def
        split: if_splits option.splits recv_result.splits loop_pc.splits)
next
  case (AwaitDone a)
  with assms(1,2) show ?thesis
    by (auto simp: absent_def await_done_def
        split: if_splits option.splits recv_result.splits loop_pc.splits)
qed (use assms(1,2) in \<open>auto simp: absent_def Start_recv_shutdown_def Stop_def register_def
      unregister_def split: if_splits\<close>)

lemma absent_run:
  assumes "run x ls s = Some s'" and "absent e s"
    and "\<forall>chunk. ReaderIter (ReadOk chunk) \<in> set ls \<longrightarrow> decodeEvent x chunk \<noteq> Inr e"
  shows "absent e s'"
  using assms
proof (induction ls arbitrary: s)
  case Nil
  then show ?case by simp
next
  case (Cons l ls)
  from Cons.prems(1) obtain s1 where s1: "step x l s = Some s1" and r: "run x ls s1 = Some s'"
    by (auto split: option.splits)
  have "absent e s1" using absent_step[OF s1 Cons.prems(2)] Cons.prems(3) by simp
  from Cons.IH[OF r this] Cons.prems(3) show ?case by simp
qed

text \<open>
  C10. When \<open>NewClient\<close> returns a client, its step has taken the first event off the
  event queue, an event with keyword \<open>AGTSTART\<close> that passes \<open>IsStart\<close>, and has changed
  nothing else; the session loop has not started then, and nothing has been forwarded or
  read. Unless an equal event is decoded again later, that event is never sent on the
  notification channel and never read by a subscriber.
\<close>

theorem handshake_event_consumed:
  assumes "run x ls (NewClient_begin ctx_err dial_err options) = Some s"
    and "step x Handshake s = Some s'" and "NewClient_pc s' = NCReturned None"
  shows "\<exists>event q. buf (events (client s)) = event # q \<and>
           Keyword event = ''AGTSTART'' \<and> IsStart x event \<and>
           s' = s\<lparr>client := (client s)\<lparr>events := (events (client s))\<lparr>buf := q\<rparr>\<rparr>,
                  NewClient_pc := NCReturned None\<rparr> \<and>
           Start_pc s = LoopIdle \<and> Start_ops s = [] \<and>
           buf (notification (client s)) = [] \<and> received s = [] \<and>
           (\<forall>ls' s''. event \<notin> set q \<and> readEvents_pc s \<noteq> ReaderSending event \<and>
               (\<forall>chunk. ReaderIter (ReadOk chunk) \<in> set ls' \<longrightarrow>
                  decodeEvent x chunk \<noteq> Inr event) \<and>
               run x ls' s' = Some s'' \<longrightarrow>
               event \<notin> set (buf (notification (client s''))) \<and>
               event \<notin> set (received s'') \<and>
               OpSendNotification event \<notin> set (Start_ops s''))"
proof -
  from assms(2) have w: "NewClient_pc s = NCWaiting" by (auto split: if_splits)
  have b: "before_return s" using before_return_run[OF assms(1) before_return_begin] .
  with w have idle: "Start_pc s = LoopIdle" "Start_ops s = []"
    "buf (notification (client s)) = []" "received s = []"
    by (simp_all add: before_return_def)
  from assms(2,3) w obtain event q where e: "buf (events (client s)) = event # q"
    "Keyword event = ''AGTSTART''" "IsStart x event"
    and s': "s' = s\<lparr>client := (client s)\<lparr>events := (events (client s))\<lparr>buf := q\<rparr>\<rparr>,
                  NewClient_pc := NCReturned None\<rparr>"
    by (auto simp: NewClient_handshake_def chan_recv_def split: if_splits list.splits)
  have later: "event \<notin> set (buf (notification (client s''))) \<and>
               event \<notin> set (received s'') \<and>
               OpSendNotification event \<notin> set (Start_ops s'')"
    if "event \<notin> set q" "readEvents_pc s \<noteq> ReaderSending event"
      "\<forall>chunk. ReaderIter (ReadOk chunk) \<in> set ls' \<longrightarrow> decodeEvent x chunk \<noteq> Inr event"
      "run x ls' s' = Some s''" for ls' s''
  proof -
    have "absent event s'" using that(1,2) idle unfolding s' by (simp add: absent_def)
    from absent_run[OF that(4) this that(3)] show ?thesis by (simp add: absent_def)
  qed
  show ?thesis using e s' idle later by blast
qed

theorem handshake_event_consumed_witness:
  "(case run sample_externals
           ([ReaderIter (ReadOk (''NAGTSTART'' @ [CHR 0x03])), Handshake] @
            [StartCall, ReaderIter (ReadOk sample_call), LoopRecvEvent, Consume])
           (NewClient_begin None None sample_options) of
      None \<Rightarrow> False
    | Some s \<Rightarrow>
        NewClient_pc s = NCReturned None \<and>
        received s = [sample_event ''CALL'' EventTypeNotification 0] \<and>
        buf (notification (client s)) = [] \<and>
        Start_ops s = [OpSendNotification (sample_event ''CALL'' EventTypeNotification 0)] \<and>
        sample_event ''AGTSTART'' EventTypeNotification 0 \<notin> set (received s) \<and>
        OpSendNotification (sample_event ''AGTSTART'' EventTypeNotification 0)
          \<notin> set (Start_ops s))"
proof -
  let ?x = sample_externals
  let ?s0 = "NewClient_begin None None sample_options"
  let ?hello = "sample_event ''AGTSTART'' EventTypeNotification 0"
  let ?call = "sample_event ''CALL'' EventTypeNotification 0"
  let ?ls' = "[StartCall, ReaderIter (ReadOk sample_call), LoopRecvEvent, Consume]"
  obtain a where ra: "run ?x [ReaderIter (ReadOk (''NAGTSTART'' @ [CHR 0x03]))] ?s0 = Some a"
    and fa: "buf (events (client a)) = [?hello]" "readEvents_pc a = ReaderLoop"
    by (simp add: model_defs)
  obtain a' where o: "run ?x ([ReaderIter (ReadOk (''NAGTSTART'' @ [CHR 0x03]))] @ [Handshake]) ?s0 = Some a'"
    and ok: "NewClient_pc a' = NCReturned None"
    by (simp add: model_defs)
  have hs: "step ?x Handshake a = Some a'"
    using o unfolding run_append_Some[OF ra] run_single .
  obtain f where rf: "run ?x (([ReaderIter (ReadOk (''NAGTSTART'' @ [CHR 0x03]))] @ [Handshake]) @ ?ls')
       ?s0 = Some f"
    and ff: "NewClient_pc f = NCReturned None" "received f = [?call]"
      "buf (notification (client f)) = []" "Start_ops f = [OpSendNotification ?call]"
    by (simp add: sample_call_def model_defs)
  have cont: "run ?x ?ls' a' = Some f"
    using rf unfolding run_append_Some[OF o] .
  have fresh: "\<forall>chunk. ReaderIter (ReadOk chunk) \<in> set ?ls' \<longrightarrow>
      decodeEvent ?x chunk \<noteq> Inr ?hello"
    by (simp add: sample_call_def sample_externals_def sample_decodeEvent_def sample_event_def)
  from handshake_event_consumed [OF ra hs ok] obtain event q where
    e: "buf (events (client a)) = event # q"
    and never: "\<forall>ls' s''. event \<notin> set q \<and> readEvents_pc a \<noteq> ReaderSending event \<and>
               (\<forall>chunk. ReaderIter (ReadOk chunk) \<in> set ls' \<longrightarrow>
                  decodeEvent ?x chunk \<noteq> Inr event) \<and>
               run ?x ls' a' = Some s'' \<longrightarrow>
               event \<notin> set (buf (notification (client s''))) \<and>
               event \<notin> set (received s'') \<and>
               OpSendNotification event \<notin> set (Start_ops s'')"
    by blast
  from e fa(1) have eq: "event = ?hello" "q = []" by simp_all
  have "?hello \<notin> set (received f) \<and> OpSendNotification ?hello \<notin> set (Start_ops f)"
    using never[rule_format, of ?ls' f] fresh cont fa(2) unfolding eq by simp
  then show ?thesis
    using rf ff by (simp del: run.simps)
qed

end
